theory Spec2Isabelle
  imports Main "HOL-Library.Word"
begin

unbundle bit_operations_syntax

section \<open>The pseudo-random source\<close>

text \<open>
  \<^verbatim>\<open>struct Xorshift\<close> holds one \<^verbatim>\<open>uint32_t state\<close>. The constructor maps the seed 0
  to 1; \<^verbatim>\<open>operator()\<close> updates the state in three steps and returns the new state, so the
  generator is modelled by the function from the old state to the new one (which is also
  the value returned).
\<close>

definition Xorshift :: "32 word \<Rightarrow> 32 word" where
  "Xorshift seed = (if seed = 0 then 1 else seed)"

definition Xorshift_call :: "32 word \<Rightarrow> 32 word" where
  "Xorshift_call st =
     (let s1 = st XOR push_bit 13 st;
          s2 = s1 XOR drop_bit 17 s1
      in s2 XOR push_bit 15 s2)"

text \<open>The first \<open>n\<close> values returned by successive calls, starting from the state \<open>st\<close>.\<close>

fun Xorshift_outputs :: "nat \<Rightarrow> 32 word \<Rightarrow> 32 word list" where
  "Xorshift_outputs 0 st = []"
| "Xorshift_outputs (Suc n) st = (let r = Xorshift_call st in r # Xorshift_outputs n r)"

text \<open>
  The generator the specification names, written from the specification's words for
  comparison with \<^const>\<open>Xorshift_call\<close>: a three-stage XOR-shift on 32 bits, shifting left by
  \<open>a\<close>, right by \<open>b\<close>, left by \<open>c\<close>, each shifted value XOR-ed back into the state in that
  order. The canonical variant is \<open>xorshift32 13 17 5\<close>.
\<close>

definition xorshift32 :: "nat \<Rightarrow> nat \<Rightarrow> nat \<Rightarrow> 32 word \<Rightarrow> 32 word" where
  "xorshift32 a b c x0 =
     (let x1 = x0 XOR push_bit a x0;
          x2 = x1 XOR drop_bit b x1
      in x2 XOR push_bit c x2)"

section \<open>The grid engine\<close>

datatype direction = up | down | left | right

datatype State = running | ended

text \<open>
  The fields of \<^verbatim>\<open>Grid<size>\<close>, with their machine types: \<^verbatim>\<open>prng_\<close> (the generator's
  \<^verbatim>\<open>uint32_t\<close> state), \<^verbatim>\<open>empty_cells_count_\<close> (\<^verbatim>\<open>unsigned short\<close>), \<^verbatim>\<open>score_\<close>
  (\<^verbatim>\<open>unsigned int\<close>), \<^verbatim>\<open>state_\<close> and \<^verbatim>\<open>grid_\<close> (\<^verbatim>\<open>size * size\<close> cells of \<^verbatim>\<open>uint8_t\<close>,
  row-major). The template parameter \<^verbatim>\<open>size\<close> is the argument \<open>sz\<close> of the operations.
\<close>

record Grid =
  prng :: "32 word"
  empty_cells_count :: "16 word"
  score :: "32 word"
  state :: State
  grid :: "8 word list"

text \<open>
  Two places of \<^verbatim>\<open>spawn_new_number\<close> have no defined result in the source: the remainder
  by \<^verbatim>\<open>empty_cells_count_\<close> when that is 0, and the \<^verbatim>\<open>__builtin_unreachable()\<close> after
  the loop. Both are values of the model.
\<close>

datatype fault = DivisionByZero | Unreachable

text \<open>
  The value stored at the chosen cell, \<^verbatim>\<open>((prng_() / 4) == 0) + 1\<close>, as a function of the
  generator's output \<open>r\<close>: the comparison is 1 or 0, and the sum is stored in a \<^verbatim>\<open>uint8_t\<close>.
\<close>

definition spawn_value :: "32 word \<Rightarrow> 8 word" where
  "spawn_value r = (if r div 4 = 0 then 1 else 0) + 1"

text \<open>
  The range-for loop of \<^verbatim>\<open>spawn_new_number\<close> over the cells, in order. \<open>p\<close> is the
  generator state after the first call; the second call happens at the chosen cell only.
  \<open>None\<close> means the loop ran off the end of the array.
\<close>

fun spawn_scan :: "32 word \<Rightarrow> 16 word \<Rightarrow> 8 word list \<Rightarrow> (32 word \<times> 8 word list) option" where
  "spawn_scan p spawn_loc [] = None"
| "spawn_scan p spawn_loc (x # xs) =
     (if spawn_loc = 0 \<and> x = 0 then
        (let r = Xorshift_call p
         in Some (r, spawn_value r # xs))
      else
        (case spawn_scan p (if x = 0 then spawn_loc - 1 else spawn_loc) xs of
           None \<Rightarrow> None
         | Some (p', ys) \<Rightarrow> Some (p', x # ys)))"

definition spawn_new_number :: "Grid \<Rightarrow> fault + Grid" where
  "spawn_new_number s =
     (if empty_cells_count s = 0 then Inl DivisionByZero
      else
        (let r = Xorshift_call (prng s);
             spawn_loc = (ucast (r mod ucast (empty_cells_count s)) :: 16 word)
         in case spawn_scan r spawn_loc (grid s) of
              None \<Rightarrow> Inl Unreachable
            | Some (p', g') \<Rightarrow>
                Inr (s\<lparr>prng := p', grid := g',
                       empty_cells_count := empty_cells_count s - 1\<rparr>)))"

text \<open>\<^verbatim>\<open>std::iter_swap\<close> on two positions of the array.\<close>

definition iter_swap :: "'a list \<Rightarrow> nat \<Rightarrow> nat \<Rightarrow> 'a list" where
  "iter_swap g a b = (g[a := g ! b])[b := g ! a]"

text \<open>
  The body of the inner loop of \<^verbatim>\<open>move_helper\<close>, for one cell \<^verbatim>\<open>it\<close>. The iterators
  \<^verbatim>\<open>it\<close> and \<^verbatim>\<open>top\<close> are offsets from \<^verbatim>\<open>grid_.begin()\<close>. The cursor \<^verbatim>\<open>top\<close> is written \<open>tp\<close>. The result is the new
  \<^verbatim>\<open>top\<close>, the new \<^verbatim>\<open>modified\<close> and the new engine. In the merge branch the statements
  are in the source's order: \<^verbatim>\<open>*it = 0\<close>, the count, the score (\<^verbatim>\<open>1 << *top\<close>, read before
  the increment), \<^verbatim>\<open>(*top)++\<close>, then the cursor.

  \<^verbatim>\<open>1 << *top\<close> is a shift of the \<^verbatim>\<open>int\<close> 1 by the exponent \<open>e\<close>, converted to
  \<^verbatim>\<open>unsigned int\<close> when it is added to the score. For \<open>e < 32\<close> that is \<open>2 ^ e\<close>. For
  \<open>e \<ge> 32\<close> the C++ standard leaves the shift undefined; the compiled program shifts by the
  count modulo 32, the width of the register, and the model does the same, so that it follows
  the program on every board. Statements about the amount added are made for \<open>e < 32\<close>.
\<close>

definition move_helper_body :: "int \<Rightarrow> int \<Rightarrow> int \<Rightarrow> bool \<Rightarrow> Grid \<Rightarrow> int \<times> bool \<times> Grid" where
  "move_helper_body it_stride it tp modified s =
     (let g = grid s in
      if g ! nat it = 0 then (tp, modified, s)
      else if g ! nat tp = 0 then
        (tp, True, s\<lparr>grid := iter_swap g (nat it) (nat tp)\<rparr>)
      else if g ! nat it = g ! nat tp then
        (let g1 = g[nat it := 0];
             ec = empty_cells_count s + 1;
             sc = score s + push_bit (unat (g1 ! nat tp) mod 32) 1;
             g2 = g1[nat tp := g1 ! nat tp + 1]
         in (tp + it_stride, True, s\<lparr>grid := g2, empty_cells_count := ec, score := sc\<rparr>))
      else
        (let tp' = tp + it_stride in
         if tp' \<noteq> it then (tp', True, s\<lparr>grid := iter_swap g (nat it) (nat tp')\<rparr>)
         else (tp', modified, s)))"

text \<open>The inner loop: \<^verbatim>\<open>for (j = 1; j < size; j++, it += it_stride)\<close>.\<close>

function inner_loop :: "nat \<Rightarrow> int \<Rightarrow> nat \<Rightarrow> int \<Rightarrow> int \<Rightarrow> bool \<Rightarrow> Grid \<Rightarrow> bool \<times> Grid" where
  "inner_loop sz it_stride j it tp modified s =
     (if j < sz then
        (case move_helper_body it_stride it tp modified s of
           (tp', modified', s') \<Rightarrow>
             inner_loop sz it_stride (j + 1) (it + it_stride) tp' modified' s')
      else (modified, s))"
  by pat_completeness auto
termination
  by (relation "measure (\<lambda>(sz, it_stride, j, it, tp, modified, s). sz - j)") auto

text \<open>
  The outer loop: \<^verbatim>\<open>for (i = 0; i < size; i++, top = top_start + i * top_stride)\<close>, whose
  body sets \<^verbatim>\<open>it = top + it_stride\<close> and runs the inner loop.
\<close>

function outer_loop :: "nat \<Rightarrow> int \<Rightarrow> int \<Rightarrow> int \<Rightarrow> nat \<Rightarrow> int \<Rightarrow> bool \<Rightarrow> Grid \<Rightarrow> bool \<times> Grid" where
  "outer_loop sz top_start top_stride it_stride i tp modified s =
     (if i < sz then
        (case inner_loop sz it_stride 1 (tp + it_stride) tp modified s of
           (modified', s') \<Rightarrow>
             outer_loop sz top_start top_stride it_stride (i + 1)
               (top_start + int (i + 1) * top_stride) modified' s')
      else (modified, s))"
  by pat_completeness auto
termination
  by (relation "measure (\<lambda>(sz, top_start, top_stride, it_stride, i, tp, modified, s). sz - i)") auto

text \<open>The enumerators' values: up = 0b00, down = 0b01, left = 0b10, right = 0b11.\<close>

fun dir_integral :: "direction \<Rightarrow> nat" where
  "dir_integral up = 0"
| "dir_integral down = 1"
| "dir_integral left = 2"
| "dir_integral right = 3"

fun top_stride_of :: "nat \<Rightarrow> direction \<Rightarrow> int" where
  "top_stride_of sz up = 1"
| "top_stride_of sz down = - 1"
| "top_stride_of sz left = int sz"
| "top_stride_of sz right = - int sz"

fun it_stride_of :: "nat \<Rightarrow> direction \<Rightarrow> int" where
  "it_stride_of sz up = int sz"
| "it_stride_of sz down = - int sz"
| "it_stride_of sz left = 1"
| "it_stride_of sz right = - 1"

definition top_start_of :: "nat \<Rightarrow> direction \<Rightarrow> int" where
  "top_start_of sz dir = (int sz * int sz - 1) * int (dir_integral dir mod 2)"

definition move_helper :: "nat \<Rightarrow> direction \<Rightarrow> Grid \<Rightarrow> bool \<times> Grid" where
  "move_helper sz dir s =
     outer_loop sz (top_start_of sz dir) (top_stride_of sz dir) (it_stride_of sz dir)
       0 (top_start_of sz dir) False s"

definition move :: "nat \<Rightarrow> direction \<Rightarrow> Grid \<Rightarrow> fault + Grid" where
  "move sz dir s =
     (if empty_cells_count s = 0 then Inr (s\<lparr>state := ended\<rparr>)
      else
        (case move_helper sz dir s of
           (modified, s') \<Rightarrow> if modified then spawn_new_number s' else Inr s'))"

definition reset :: "nat \<Rightarrow> Grid \<Rightarrow> fault + Grid" where
  "reset sz s =
     spawn_new_number
       (s\<lparr>grid := replicate (length (grid s)) 0,
          empty_cells_count := of_nat (sz * sz)\<rparr>)"

text \<open>The constructor \<^verbatim>\<open>Grid(uint32_t seed)\<close>.\<close>

definition Grid_new :: "nat \<Rightarrow> 32 word \<Rightarrow> fault + Grid" where
  "Grid_new sz seed =
     spawn_new_number
       \<lparr>prng = Xorshift seed, empty_cells_count = of_nat (sz * sz), score = 0,
        state = running, grid = replicate (sz * sz) 0\<rparr>"

text \<open>A sequence of \<^verbatim>\<open>move\<close> calls on one engine, stopping at the first fault.\<close>

fun moves :: "nat \<Rightarrow> direction list \<Rightarrow> Grid \<Rightarrow> fault + Grid" where
  "moves sz [] s = Inr s"
| "moves sz (d # ds) s = (case move sz d s of Inl e \<Rightarrow> Inl e | Inr s' \<Rightarrow> moves sz ds s')"

text \<open>The number of zero entries of the board.\<close>

definition zero_cells :: "8 word list \<Rightarrow> nat" where
  "zero_cells g = length (filter (\<lambda>x. x = 0) g)"

text \<open>
  The number of cells whose exponent is at least \<open>j\<close>, and the bound on these numbers that
  every board built by the engine satisfies: at most \<open>length g + 2 - j\<close> cells hold an
  exponent of at least \<open>j\<close>. (Two tiles of exponent \<open>e\<close> are needed to build one of exponent
  \<open>e + 1\<close>, and new tiles have exponent 1 or 2.)
\<close>

definition count_ge :: "8 word list \<Rightarrow> nat \<Rightarrow> nat" where
  "count_ge g j = length (filter (\<lambda>x. j \<le> unat x) g)"

definition tiles_bounded :: "8 word list \<Rightarrow> bool" where
  "tiles_bounded g \<longleftrightarrow> (\<forall>j. count_ge g j \<le> length g + 2 - j)"

definition grid_inv :: "nat \<Rightarrow> Grid \<Rightarrow> bool" where
  "grid_inv sz s \<longleftrightarrow>
     length (grid s) = sz * sz \<and> unat (empty_cells_count s) = zero_cells (grid s) \<and>
     tiles_bounded (grid s)"

text \<open>The engines that exist: built by the constructor, then moved or reset any number of times.\<close>

inductive reachable :: "nat \<Rightarrow> Grid \<Rightarrow> bool" for sz :: nat where
  constructed: "Grid_new sz seed = Inr s \<Longrightarrow> reachable sz s"
| moved: "reachable sz s \<Longrightarrow> move sz d s = Inr s' \<Longrightarrow> reachable sz s'"
| was_reset: "reachable sz s \<Longrightarrow> reset sz s = Inr s' \<Longrightarrow> reachable sz s'"

text \<open>
  The sum of \<open>w p\<close> over the positions \<open>p\<close> of the non-zero cells, for a weight \<open>w\<close> of the
  positions.
\<close>

definition weight :: "(nat \<Rightarrow> nat) \<Rightarrow> 8 word list \<Rightarrow> nat" where
  "weight w g = (\<Sum>p<length g. if g ! p \<noteq> 0 then w p else 0)"

text \<open>
  What the pass is meant to do to one line, read from the leading edge. \<open>merge_tiles\<close> acts
  on the non-zero tiles of the line: two equal neighbours become one tile of the next
  exponent, which is put out and not compared again; \<open>merge_gain\<close> is the sum, over those same
  merges, of \<open>2 ^ e\<close> for the exponent \<open>e\<close> of the two tiles merged. \<open>slide_line\<close> is the whole
  line after the pass: the merged tiles, then zeros.
\<close>

fun merge_tiles :: "8 word list \<Rightarrow> 8 word list" where
  "merge_tiles (x # y # xs) = (if x = y then (x + 1) # merge_tiles xs else x # merge_tiles (y # xs))"
| "merge_tiles xs = xs"

fun merge_gain :: "8 word list \<Rightarrow> 32 word" where
  "merge_gain (x # y # xs) = (if x = y then 2 ^ unat x + merge_gain xs else merge_gain (y # xs))"
| "merge_gain xs = 0"

text \<open>
  \<open>shift_gain\<close> is what the pass adds on every line, whatever the exponents: as
  \<^const>\<open>merge_gain\<close>, with the count of the shift taken modulo 32. The two agree on the lines
  whose exponents are below 32.
\<close>

fun shift_gain :: "8 word list \<Rightarrow> 32 word" where
  "shift_gain (x # y # xs) =
     (if x = y then 2 ^ (unat x mod 32) + shift_gain xs else shift_gain (y # xs))"
| "shift_gain xs = 0"

definition slide_line :: "8 word list \<Rightarrow> 8 word list" where
  "slide_line xs =
     (let ys = merge_tiles (filter (\<lambda>x. x \<noteq> 0) xs)
      in ys @ replicate (length xs - length ys) 0)"

text \<open>
  The cells of the line that starts at offset \<open>b\<close> and advances by \<open>st\<close>, in the order the
  inner loop visits them; \<open>line_cells sz d i\<close> is the \<open>i\<close>-th line of a move in direction \<open>d\<close>.
\<close>

definition line_at :: "nat \<Rightarrow> int \<Rightarrow> int \<Rightarrow> 8 word list \<Rightarrow> 8 word list" where
  "line_at sz b st g = map (\<lambda>k. g ! nat (b + int k * st)) [0..<sz]"

definition line_cells :: "nat \<Rightarrow> direction \<Rightarrow> nat \<Rightarrow> 8 word list \<Rightarrow> 8 word list" where
  "line_cells sz d i g =
     line_at sz (top_start_of sz d + int i * top_stride_of sz d) (it_stride_of sz d) g"

text \<open>
  The invariant of the inner loop on one line: \<open>L0\<close> and \<open>sc0\<close> are the line and the score
  before the loop, \<open>L\<close> and \<open>sc\<close> the line and the score when the loop is about to visit
  position \<open>j\<close> with the cursor at position \<open>t\<close>.
\<close>

definition line_inv :: "8 word list \<Rightarrow> 32 word \<Rightarrow> nat \<Rightarrow> nat \<Rightarrow> 8 word list \<Rightarrow> 32 word \<Rightarrow> bool" where
  "line_inv L0 sc0 j t L sc \<longleftrightarrow>
     length L = length L0 \<and> t < j \<and> j \<le> length L0 \<and> drop j L = drop j L0 \<and>
     (\<forall>l. t < l \<and> l < j \<longrightarrow> L ! l = 0) \<and>
     merge_tiles (filter (\<lambda>x. x \<noteq> 0) L0)
       = take t L @ merge_tiles (filter (\<lambda>x. x \<noteq> 0) (L ! t # drop j L0)) \<and>
     sc0 + shift_gain (filter (\<lambda>x. x \<noteq> 0) L0)
       = sc + shift_gain (filter (\<lambda>x. x \<noteq> 0) (L ! t # drop j L0))"

text \<open>
  Concrete engines used to instantiate the theorems below. \<open>new_2_1\<close> is the engine of size 2
  built with the seed 1; \<open>down_2_1\<close>, \<open>left_2_1\<close> and \<open>up_2_1\<close> follow it by the moves down,
  left, up; \<open>down_2_1\<close>, \<open>up1_2_1\<close>, \<open>up2_2_1\<close>, \<open>full_2_1\<close> and \<open>ended_2_1\<close> follow it by the
  moves down, up, up, down, down; \<open>reset_2_1\<close> is \<open>ended_2_1\<close> after \<^verbatim>\<open>reset\<close>.
\<close>

definition spawn_example :: Grid where
  "spawn_example =
     \<lparr>prng = 1, empty_cells_count = 2, score = 0, state = running, grid = [1, 0, 3, 0]\<rparr>"

definition merge_example :: Grid where
  "merge_example =
     \<lparr>prng = 1, empty_cells_count = 6, score = 0, state = running,
      grid = [1, 1, 2, 0, 0, 0, 0, 0, 0]\<rparr>"



definition new_2_1 :: Grid where
  "new_2_1 =
     \<lparr>prng = 1157628417, empty_cells_count = 3, score = 0, state = running, grid = [0, 1, 0, 0]\<rparr>"

definition down_2_1 :: Grid where
  "down_2_1 =
     \<lparr>prng = 269814307, empty_cells_count = 2, score = 0, state = running, grid = [0, 0, 1, 1]\<rparr>"

definition left_2_1 :: Grid where
  "left_2_1 =
     \<lparr>prng = 2022772137, empty_cells_count = 2, score = 2, state = running, grid = [0, 0, 2, 1]\<rparr>"

definition up_2_1 :: Grid where
  "up_2_1 =
     \<lparr>prng = 56940020, empty_cells_count = 1, score = 2, state = running, grid = [2, 1, 0, 1]\<rparr>"

definition up1_2_1 :: Grid where
  "up1_2_1 =
     \<lparr>prng = 2022772137, empty_cells_count = 1, score = 0, state = running, grid = [1, 1, 0, 1]\<rparr>"

definition up2_2_1 :: Grid where
  "up2_2_1 =
     \<lparr>prng = 56940020, empty_cells_count = 1, score = 2, state = running, grid = [1, 2, 0, 1]\<rparr>"

definition full_2_1 :: Grid where
  "full_2_1 =
     \<lparr>prng = 2338593315, empty_cells_count = 0, score = 2, state = running, grid = [1, 2, 1, 1]\<rparr>"

definition ended_2_1 :: Grid where
  "ended_2_1 =
     \<lparr>prng = 2338593315, empty_cells_count = 0, score = 2, state = ended, grid = [1, 2, 1, 1]\<rparr>"

definition reset_2_1 :: Grid where
  "reset_2_1 =
     \<lparr>prng = 3319372364, empty_cells_count = 3, score = 2, state = ended, grid = [0, 0, 0, 1]\<rparr>"

declare inner_loop.simps [simp del]

declare outer_loop.simps [simp del]

section \<open>The generator\<close>

lemma Xorshift_call_13_17_15: "Xorshift_call st = xorshift32 13 17 15 st"
  by (simp add: Xorshift_call_def xorshift32_def Let_def)

lemma length_Xorshift_outputs: "length (Xorshift_outputs n st) = n"
  by (induction n arbitrary: st) (simp_all add: Let_def)

text \<open>
  C4, as stated: the output sequence equals that of the canonical 13/17/5 generator for every
  seed. It does not: already the first output for the seed 1 differs (268476417 against
  270369).
\<close>

theorem Xorshift_not_13_17_5:
  "Xorshift_outputs 1 (Xorshift 1) = [268476417] \<and> xorshift32 13 17 5 (Xorshift 1) = 270369
   \<and> Xorshift_outputs 1 (Xorshift 1) \<noteq> [xorshift32 13 17 5 (Xorshift 1)]"
  by (simp add: Xorshift_call_def xorshift32_def Xorshift_def Let_def)

text \<open>
  C4, amended: \<^verbatim>\<open>operator()\<close> is the three-stage XOR-shift with the shift amounts left 13,
  right 17, left 15, and for every seed the \<open>k\<close>-th value it returns is the \<open>(k + 1)\<close>-fold
  iterate of that 13/17/15 step on the (remapped) seed.
\<close>

theorem Xorshift_outputs_13_17_15:
  "k < n \<Longrightarrow> Xorshift_outputs n (Xorshift seed) ! k = (xorshift32 13 17 15 ^^ Suc k) (Xorshift seed)"
proof (induction n arbitrary: seed k)
  case 0
  then show ?case by simp
next
  case (Suc n)
  have gen: "k < n \<Longrightarrow> Xorshift_outputs n st ! k = (xorshift32 13 17 15 ^^ Suc k) st" for st k n
  proof (induction n arbitrary: st k)
    case 0
    then show ?case by simp
  next
    case (Suc n)
    show ?case
    proof (cases k)
      case 0
      then show ?thesis by (simp add: Let_def Xorshift_call_13_17_15)
    next
      case (Suc k')
      with Suc.prems have "k' < n" by simp
      from Suc.IH[OF this, of "Xorshift_call st"] Suc show ?thesis
        by (simp add: Let_def Xorshift_call_13_17_15 funpow_swap1)
    qed
  qed
  from gen[OF Suc.prems] show ?case .
qed

theorem Xorshift_outputs_13_17_15_witness:
  "(1::nat) < 3 \<and> Xorshift_outputs 3 (Xorshift 0) ! 1 = (xorshift32 13 17 15 ^^ 2) (Xorshift 0)"
  using Xorshift_outputs_13_17_15[of 1 3 0] by (simp add: numeral_2_eq_2)

section \<open>The value of a spawned tile\<close>

lemma spawn_value_two_iff: "spawn_value r = 2 \<longleftrightarrow> r < 4"
proof -
  have "unat r div 4 = 0 \<longleftrightarrow> unat r < 4" by arith
  then show ?thesis
    by (simp add: spawn_value_def word_less_nat_alt word_unat_eq_iff unat_div)
qed

lemma spawn_value_cases: "spawn_value r = 1 \<or> spawn_value r = 2"
  by (simp add: spawn_value_def)

lemma spawn_value_nonzero: "spawn_value r \<noteq> 0"
  by (simp add: spawn_value_def)

lemma word32_less_4: "r < 4 \<longleftrightarrow> r \<in> {0, 1, 2, 3}" for r :: "32 word"
proof
  assume "r < 4"
  then have "unat r < 4" by (simp add: word_less_nat_alt)
  then have "unat r = 0 \<or> unat r = 1 \<or> unat r = 2 \<or> unat r = 3" by arith
  then show "r \<in> {0, 1, 2, 3}" by (auto simp: word_unat_eq_iff)
next
  assume "r \<in> {0, 1, 2, 3}"
  then show "r < 4" by auto
qed

text \<open>
  C3: among the \<open>2 ^ 32\<close> generator outputs, the ones for which the spawned cell receives the
  exponent 2 (tile 4) are those whose quotient by 4 is 0, that is 0, 1, 2 and 3: four outputs,
  not a quarter of them. Every other output, 4 for instance, gives the exponent 1.
\<close>

theorem spawn_value_four_outputs:
  "{r. spawn_value r = 2} = {r. r div 4 = 0} \<and> {r. spawn_value r = 2} = {0, 1, 2, 3}
   \<and> card {r. spawn_value r = 2} = 4 \<and> card {r. spawn_value r = 1} = 2 ^ 32 - 4
   \<and> spawn_value 4 = 1"
proof -
  have a: "{r. spawn_value r = 2} = {0, 1, 2, 3}"
    using spawn_value_two_iff word32_less_4 by blast
  have b: "{r. spawn_value r = 2} = {r. r div 4 = 0}"
    by (auto simp: spawn_value_def)
  have "{r. spawn_value r = 1} = UNIV - {r. spawn_value r = 2}"
    by (auto simp: spawn_value_def)
  then have c: "card {r. spawn_value r = 1} = 2 ^ 32 - 4"
    by (simp add: a card_Diff_subset card_word)
  have d: "spawn_value 4 = 1" by (simp add: spawn_value_def)
  from a have e: "card {r. spawn_value r = 2} = 4" by simp
  from a b c d e show ?thesis by blast
qed

section \<open>Spawning a tile\<close>

lemma filter_update_count:
  "i < length xs \<Longrightarrow>
     length (filter P (xs[i := v])) + (if P (xs ! i) then 1 else 0)
       = length (filter P xs) + (if P v then 1 else 0)"
proof (induction xs arbitrary: i)
  case Nil
  then show ?case by simp
next
  case (Cons x xs)
  show ?case
  proof (cases i)
    case 0
    then show ?thesis by simp
  next
    case (Suc i')
    with Cons.prems have "i' < length xs" by simp
    from Cons.IH[OF this] Suc show ?thesis by simp
  qed
qed

lemma zero_cells_update:
  "i < length g \<Longrightarrow>
     zero_cells (g[i := v]) + (if g ! i = 0 then 1 else 0) = zero_cells g + (if v = 0 then 1 else 0)"
  unfolding zero_cells_def by (rule filter_update_count)

lemma zero_cells_Cons: "zero_cells (x # xs) = (if x = 0 then 1 else 0) + zero_cells xs"
  by (simp add: zero_cells_def)

lemma zero_cells_replicate: "zero_cells (replicate n 0) = n"
  by (simp add: zero_cells_def)

lemma zero_cells_le: "zero_cells g \<le> length g"
  by (simp add: zero_cells_def)

lemma spawn_scan_finds:
  "unat spawn_loc < zero_cells xs \<Longrightarrow>
     \<exists>i<length xs. xs ! i = 0 \<and>
       spawn_scan p spawn_loc xs = Some (Xorshift_call p, xs[i := spawn_value (Xorshift_call p)])"
proof (induction xs arbitrary: spawn_loc)
  case Nil
  then show ?case by (simp add: zero_cells_def)
next
  case (Cons x xs)
  show ?case
  proof (cases "spawn_loc = 0 \<and> x = 0")
    case True
    then have "spawn_scan p spawn_loc (x # xs)
        = Some (Xorshift_call p, (x # xs)[0 := spawn_value (Xorshift_call p)])"
      by (simp add: Let_def)
    with True show ?thesis by (intro exI[of _ 0]) simp
  next
    case False
    let ?loc = "if x = 0 then spawn_loc - 1 else spawn_loc"
    have "unat ?loc < zero_cells xs"
    proof (cases "x = 0")
      case True
      with False have "spawn_loc \<noteq> 0" by simp
      then have "unat (spawn_loc - 1) = unat spawn_loc - 1" "0 < unat spawn_loc"
        by (simp_all add: unat_minus_one unat_gt_0)
      with Cons.prems True show ?thesis by (simp add: zero_cells_Cons)
    next
      case False
      with Cons.prems show ?thesis by (simp add: zero_cells_Cons)
    qed
    from Cons.IH[OF this] obtain i where i: "i < length xs" "xs ! i = 0"
      "spawn_scan p ?loc xs = Some (Xorshift_call p, xs[i := spawn_value (Xorshift_call p)])"
      by blast
    have "spawn_scan p spawn_loc (x # xs)
        = Some (Xorshift_call p, (x # xs)[Suc i := spawn_value (Xorshift_call p)])"
      using False i(3) by auto
    with i show ?thesis by (intro exI[of _ "Suc i"]) simp
  qed
qed

lemma spawn_loc_bound:
  fixes ec :: "16 word" and r :: "32 word"
  assumes "ec \<noteq> 0"
  shows "unat (ucast (r mod ucast ec) :: 16 word) < unat ec"
proof -
  have "unat ec < 2 ^ 16" using unsigned_less[of ec, where ?'a = nat] by simp
  then have e: "unat (ucast ec :: 32 word) = unat ec"
    by (simp add: unsigned_ucast_eq take_bit_nat_eq_self)
  have "0 < unat ec" using assms by (simp add: unat_gt_0)
  then have "unat (r mod ucast ec) < unat ec" by (simp add: unat_mod e)
  moreover have "unat (ucast (r mod ucast ec) :: 16 word) \<le> unat (r mod ucast ec)"
    by (simp add: unsigned_ucast_eq take_bit_eq_mod)
  ultimately show ?thesis by simp
qed

lemma spawn_new_number_returns:
  assumes "empty_cells_count s \<noteq> 0" and "unat (empty_cells_count s) = zero_cells (grid s)"
  shows "\<exists>i<length (grid s). grid s ! i = 0 \<and>
           spawn_new_number s =
             Inr (s\<lparr>prng := Xorshift_call (Xorshift_call (prng s)),
                    grid := (grid s)[i := spawn_value (Xorshift_call (Xorshift_call (prng s)))],
                    empty_cells_count := empty_cells_count s - 1\<rparr>)"
proof -
  let ?r = "Xorshift_call (prng s)"
  let ?loc = "ucast (?r mod ucast (empty_cells_count s)) :: 16 word"
  have "unat ?loc < zero_cells (grid s)"
    using spawn_loc_bound[OF assms(1)] assms(2) by simp
  from spawn_scan_finds[OF this, of ?r] obtain i where i: "i < length (grid s)" "grid s ! i = 0"
    "spawn_scan ?r ?loc (grid s) = Some (Xorshift_call ?r, (grid s)[i := spawn_value (Xorshift_call ?r)])"
    by blast
  then have "spawn_new_number s =
             Inr (s\<lparr>prng := Xorshift_call ?r,
                    grid := (grid s)[i := spawn_value (Xorshift_call ?r)],
                    empty_cells_count := empty_cells_count s - 1\<rparr>)"
    using assms(1) by (simp add: spawn_new_number_def Let_def)
  with i show ?thesis by blast
qed


text \<open>The same when the count is not above the number of zero cells.\<close>

lemma spawn_new_number_places:
  assumes "empty_cells_count s \<noteq> 0" and "unat (empty_cells_count s) \<le> zero_cells (grid s)"
  shows "\<exists>i < length (grid s). grid s ! i = 0 \<and>
           spawn_new_number s =
             Inr (s\<lparr>prng := Xorshift_call (Xorshift_call (prng s)),
                    grid := (grid s)[i := spawn_value (Xorshift_call (Xorshift_call (prng s)))],
                    empty_cells_count := empty_cells_count s - 1\<rparr>)"
proof -
  let ?r = "Xorshift_call (prng s)"
  let ?loc = "ucast (?r mod ucast (empty_cells_count s)) :: 16 word"
  have "unat ?loc < zero_cells (grid s)"
    using spawn_loc_bound[OF assms(1), of ?r] assms(2) by simp
  from spawn_scan_finds[OF this, of ?r] obtain i where i: "i < length (grid s)" "grid s ! i = 0"
    "spawn_scan ?r ?loc (grid s) = Some (Xorshift_call ?r, (grid s)[i := spawn_value (Xorshift_call ?r)])"
    by blast
  then have "spawn_new_number s =
             Inr (s\<lparr>prng := Xorshift_call ?r,
                    grid := (grid s)[i := spawn_value (Xorshift_call ?r)],
                    empty_cells_count := empty_cells_count s - 1\<rparr>)"
    using assms(1) by (simp add: spawn_new_number_def Let_def)
  with i show ?thesis by blast
qed

lemma spawn_scan_Some:
  "spawn_scan p spawn_loc xs = Some (p', ys) \<Longrightarrow>
     p' = Xorshift_call p \<and> (\<exists>i<length xs. xs ! i = 0 \<and> ys = xs[i := spawn_value p'])"
proof (induction xs arbitrary: spawn_loc ys)
  case Nil
  then show ?case by simp
next
  case (Cons x xs)
  show ?case
  proof (cases "spawn_loc = 0 \<and> x = 0")
    case True
    with Cons.prems have "p' = Xorshift_call p" "ys = (x # xs)[0 := spawn_value p']"
      by (auto simp add: Let_def)
    with True show ?thesis by (intro conjI exI[of _ 0]) simp_all
  next
    case False
    let ?loc = "if x = 0 then spawn_loc - 1 else spawn_loc"
    from Cons.prems False obtain zs where zs: "spawn_scan p ?loc xs = Some (p', zs)" "ys = x # zs"
      by (auto split: option.splits)
    from Cons.IH[OF zs(1)] obtain i where "p' = Xorshift_call p" "i < length xs" "xs ! i = 0"
      "zs = xs[i := spawn_value p']" by blast
    with zs(2) show ?thesis by (intro conjI exI[of _ "Suc i"]) simp_all
  qed
qed

lemma spawn_new_number_Inr:
  assumes "spawn_new_number s = Inr s'"
  shows "\<exists>i<length (grid s). grid s ! i = 0 \<and>
           s' = s\<lparr>prng := Xorshift_call (Xorshift_call (prng s)),
                  grid := (grid s)[i := spawn_value (Xorshift_call (Xorshift_call (prng s)))],
                  empty_cells_count := empty_cells_count s - 1\<rparr>"
proof -
  let ?r = "Xorshift_call (prng s)"
  let ?loc = "ucast (?r mod ucast (empty_cells_count s)) :: 16 word"
  from assms obtain p' g' where sc: "spawn_scan ?r ?loc (grid s) = Some (p', g')"
    and s': "s' = s\<lparr>prng := p', grid := g', empty_cells_count := empty_cells_count s - 1\<rparr>"
    by (auto simp: spawn_new_number_def Let_def split: if_splits option.splits)
  from spawn_scan_Some[OF sc] s' show ?thesis by blast
qed

text \<open>
  C10: when \<^verbatim>\<open>empty_cells_count_\<close> is positive and equals the number of zero cells,
  \<^verbatim>\<open>spawn_new_number\<close> returns from inside its loop (neither fault occurs): it writes a
  non-zero exponent \<open>v\<close> into one cell \<open>i\<close> that was zero, leaves every other cell as it
  was, lowers the count by one and has called the generator twice.
\<close>

theorem spawn_new_number_finds:
  assumes "empty_cells_count s \<noteq> 0" and "unat (empty_cells_count s) = zero_cells (grid s)"
  shows "\<exists>i v. i < length (grid s) \<and> grid s ! i = 0 \<and> v \<noteq> 0 \<and>
           spawn_new_number s =
             Inr (s\<lparr>prng := Xorshift_call (Xorshift_call (prng s)),
                    grid := (grid s)[i := v],
                    empty_cells_count := empty_cells_count s - 1\<rparr>)"
  using spawn_new_number_returns[OF assms] spawn_value_nonzero by blast

theorem spawn_new_number_finds_witness:
  "empty_cells_count spawn_example \<noteq> 0
   \<and> unat (empty_cells_count spawn_example) = zero_cells (grid spawn_example)
   \<and> (\<exists>i v. i < length (grid spawn_example) \<and> grid spawn_example ! i = 0 \<and> v \<noteq> 0 \<and>
           spawn_new_number spawn_example =
             Inr (spawn_example\<lparr>prng := Xorshift_call (Xorshift_call (prng spawn_example)),
                    grid := (grid spawn_example)[i := v],
                    empty_cells_count := empty_cells_count spawn_example - 1\<rparr>))"
proof -
  have h1: "empty_cells_count spawn_example \<noteq> 0" by (simp add: spawn_example_def)
  have h2: "unat (empty_cells_count spawn_example) = zero_cells (grid spawn_example)"
    by (simp add: spawn_example_def zero_cells_def)
  from spawn_new_number_finds[OF h1 h2] h1 h2 show ?thesis by blast
qed

section \<open>The engine of size 2 built with the seed 1\<close>

lemma Grid_new_2_1: "Grid_new 2 1 = Inr new_2_1"
  unfolding new_2_1_def by code_simp

lemma move_down_new_2_1: "move 2 down new_2_1 = Inr down_2_1"
  unfolding new_2_1_def down_2_1_def by code_simp

lemma move_left_down_2_1: "move 2 left down_2_1 = Inr left_2_1"
  unfolding down_2_1_def left_2_1_def by code_simp

lemma move_up_left_2_1: "move 2 up left_2_1 = Inr up_2_1"
  unfolding left_2_1_def up_2_1_def by code_simp

lemma move_up_down_2_1: "move 2 up down_2_1 = Inr up1_2_1"
  unfolding down_2_1_def up1_2_1_def by code_simp

lemma move_up_up1_2_1: "move 2 up up1_2_1 = Inr up2_2_1"
  unfolding up1_2_1_def up2_2_1_def by code_simp

lemma move_down_up2_2_1: "move 2 down up2_2_1 = Inr full_2_1"
  unfolding up2_2_1_def full_2_1_def by code_simp

lemma move_down_full_2_1: "move 2 down full_2_1 = Inr ended_2_1"
  by (simp add: move_def full_2_1_def ended_2_1_def)

lemma moves_new_2_1: "moves 2 [down, up, up, down, down] new_2_1 = Inr ended_2_1"
  by (simp add: move_down_new_2_1 move_up_down_2_1 move_up_up1_2_1 move_down_up2_2_1
      move_down_full_2_1)

lemma reset_ended_2_1: "reset 2 ended_2_1 = Inr reset_2_1"
  unfolding ended_2_1_def reset_2_1_def by code_simp

section \<open>\<^verbatim>\<open>reset\<close>\<close>

lemma unat_of_nat_sq: "sz \<le> 255 \<Longrightarrow> unat (of_nat (sz * sz) :: 16 word) = sz * sz"
proof -
  assume "sz \<le> 255"
  then have "sz * sz \<le> 255 * 255" by (intro mult_le_mono)
  then show ?thesis by (simp add: unat_of_nat del: of_nat_mult)
qed

lemma reset_returns:
  assumes "1 \<le> sz" "sz \<le> 255" "length (grid s) = sz * sz"
  shows "\<exists>i. i < sz * sz \<and>
           reset sz s =
             Inr (s\<lparr>prng := Xorshift_call (Xorshift_call (prng s)),
                    grid := (replicate (sz * sz) 0)[i := spawn_value (Xorshift_call (Xorshift_call (prng s)))],
                    empty_cells_count := of_nat (sz * sz) - 1\<rparr>)"
proof -
  let ?t = "s\<lparr>grid := replicate (length (grid s)) 0, empty_cells_count := of_nat (sz * sz)\<rparr>"
  have u: "unat (of_nat (sz * sz) :: 16 word) = sz * sz" using assms(2) by (rule unat_of_nat_sq)
  have "0 < sz * sz" using assms(1) by simp
  with u have nz: "empty_cells_count ?t \<noteq> 0" by (auto simp: word_unat_eq_iff simp del: of_nat_mult)
  have eq: "unat (empty_cells_count ?t) = zero_cells (grid ?t)"
    using u assms(3) by (simp add: zero_cells_replicate del: of_nat_mult)
  from spawn_new_number_returns[OF nz eq] assms(3) show ?thesis
    by (auto simp add: reset_def simp del: of_nat_mult)
qed

text \<open>
  C9: \<^verbatim>\<open>reset\<close> writes neither \<^verbatim>\<open>state_\<close> nor \<^verbatim>\<open>score_\<close>: the engine it returns is the
  one it was given except for the generator state, the count and the board. In particular
  an engine that was \<^verbatim>\<open>ended\<close> before \<^verbatim>\<open>reset\<close> is \<^verbatim>\<open>ended\<close> after it.
\<close>

theorem reset_frame:
  assumes "reset sz s = Inr s'"
  shows "state s' = state s \<and> score s' = score s \<and>
         s' = s\<lparr>prng := prng s', empty_cells_count := empty_cells_count s', grid := grid s'\<rparr>"
proof -
  from spawn_new_number_Inr[OF assms[unfolded reset_def]] obtain i where
    "s' = s\<lparr>grid := replicate (length (grid s)) 0, empty_cells_count := of_nat (sz * sz)\<rparr>
           \<lparr>prng := Xorshift_call (Xorshift_call (prng s)),
            grid := (replicate (length (grid s)) 0)[i := spawn_value (Xorshift_call (Xorshift_call (prng s)))],
            empty_cells_count := of_nat (sz * sz) - 1\<rparr>"
    by auto
  then show ?thesis by simp
qed


theorem reset_frame_witness:
  "reset 2 ended_2_1 = Inr reset_2_1 \<and> state ended_2_1 = ended \<and>
   state reset_2_1 = state ended_2_1 \<and> score reset_2_1 = score ended_2_1 \<and>
   reset_2_1 = ended_2_1\<lparr>prng := prng reset_2_1,
                 empty_cells_count := empty_cells_count reset_2_1, grid := grid reset_2_1\<rparr>"
proof -
  have "state ended_2_1 = ended" by (simp add: ended_2_1_def)
  with reset_frame[OF reset_ended_2_1] reset_ended_2_1 show ?thesis by blast
qed

text \<open>What \<^verbatim>\<open>reset\<close> does establish, for a board of \<open>sz * sz\<close> cells.\<close>

lemma reset_result:
  assumes "1 \<le> sz" "sz \<le> 255" "length (grid s) = sz * sz"
  shows "\<exists>s' i. reset sz s = Inr s' \<and> i < sz * sz \<and> grid s' ! i \<noteq> 0 \<and> length (grid s') = sz * sz \<and>
           (\<forall>j. j < sz * sz \<and> j \<noteq> i \<longrightarrow> grid s' ! j = 0) \<and>
           unat (empty_cells_count s') = sz * sz - 1 \<and> zero_cells (grid s') = sz * sz - 1 \<and>
           score s' = score s \<and> state s' = state s"
proof -
  let ?v = "spawn_value (Xorshift_call (Xorshift_call (prng s)))"
  from reset_returns[OF assms] obtain i where i: "i < sz * sz" and
    r: "reset sz s = Inr (s\<lparr>prng := Xorshift_call (Xorshift_call (prng s)),
                    grid := (replicate (sz * sz) 0)[i := ?v],
                    empty_cells_count := of_nat (sz * sz) - 1\<rparr>)" by blast
  have u: "unat (of_nat (sz * sz) :: 16 word) = sz * sz" using assms(2) by (rule unat_of_nat_sq)
  have "0 < sz * sz" using assms(1) by simp
  with u have "(of_nat (sz * sz) :: 16 word) \<noteq> 0" by (auto simp: word_unat_eq_iff simp del: of_nat_mult)
  then have e: "unat (of_nat (sz * sz) - 1 :: 16 word) = sz * sz - 1"
    using u by (simp add: unat_minus_one del: of_nat_mult)
  have z: "zero_cells ((replicate (sz * sz) 0)[i := ?v]) = sz * sz - 1"
    using zero_cells_update[of i "replicate (sz * sz) 0" ?v] i spawn_value_nonzero[of "Xorshift_call (Xorshift_call (prng s))"]
    by (simp add: zero_cells_replicate)
  have n: "(replicate (sz * sz) 0)[i := ?v] ! i \<noteq> 0"
    using i spawn_value_nonzero by simp
  have o: "\<forall>j. j < sz * sz \<and> j \<noteq> i \<longrightarrow> (replicate (sz * sz) 0)[i := ?v] ! j = 0"
    by simp
  show ?thesis
    by (intro exI[of _ "s\<lparr>prng := Xorshift_call (Xorshift_call (prng s)),
                    grid := (replicate (sz * sz) 0)[i := ?v],
                    empty_cells_count := of_nat (sz * sz) - 1\<rparr>"] exI[of _ i])
       (use r i e z n o in \<open>simp del: of_nat_mult\<close>)
qed

text \<open>
  C2 says that \<^verbatim>\<open>state()\<close> is \<^verbatim>\<open>running\<close> after every \<^verbatim>\<open>reset()\<close>. The engine built with
  size 2 and seed 1 has a full board after the moves down, up, up, down; the next move sets
  the status to \<^verbatim>\<open>ended\<close>; \<^verbatim>\<open>reset\<close> then leaves one tile, the count 3 and the score 2, and
  the status is still \<^verbatim>\<open>ended\<close>.
\<close>

theorem reset_leaves_ended:
  "Grid_new 2 1 = Inr new_2_1 \<and> moves 2 [down, up, up, down, down] new_2_1 = Inr ended_2_1 \<and>
   state ended_2_1 = ended \<and> reset 2 ended_2_1 = Inr reset_2_1 \<and> state reset_2_1 = ended \<and>
   grid reset_2_1 = [0, 0, 0, 1] \<and> empty_cells_count reset_2_1 = 3 \<and>
   score reset_2_1 = score ended_2_1"
  using Grid_new_2_1 moves_new_2_1 reset_ended_2_1 by (simp add: ended_2_1_def reset_2_1_def)

section \<open>Invariants of the slide-and-merge pass\<close>

text \<open>
  A rule for the two loops of \<^verbatim>\<open>move_helper\<close>: a property \<open>I\<close> of \<^verbatim>\<open>modified\<close> and the engine
  that holds before the pass and is kept by a slide (a non-zero cell \<open>p\<close> swapped with a
  zero cell \<open>q\<close> nearer the leading edge) and by a merge holds after the pass. The proof
  carries what the loops maintain: the cursor is behind \<^verbatim>\<open>it\<close> on the same line, both are
  inside the array, and the cells strictly between them are zero.
\<close>

lemma cell_distinct:
  fixes st b :: int
  assumes "st \<noteq> 0" "0 \<le> b + int k * st" "0 \<le> b + int l * st" "k \<noteq> l"
  shows "nat (b + int k * st) \<noteq> nat (b + int l * st)"
proof
  assume "nat (b + int k * st) = nat (b + int l * st)"
  with assms(2,3) have "b + int k * st = b + int l * st" by linarith
  then have "(int k - int l) * st = 0" by (simp add: algebra_simps)
  with assms(1) have "int k = int l" by simp
  with assms(4) show False by simp
qed

lemma cell_less_pos:
  fixes st b :: int
  assumes "0 < st" "0 \<le> b + int k * st" "k < l"
  shows "nat (b + int k * st) < nat (b + int l * st)"
proof -
  have "int k * st < int l * st" using assms(1,3) by (simp add: mult_strict_right_mono)
  with assms(2) show ?thesis by linarith
qed

lemma cell_less_neg:
  fixes st b :: int
  assumes "st < 0" "0 \<le> b + int l * st" "k < l"
  shows "nat (b + int l * st) < nat (b + int k * st)"
proof -
  have "int l * st < int k * st" using assms(1,3) by (simp add: mult_strict_right_mono_neg)
  with assms(2) show ?thesis by linarith
qed

lemma iter_swap_length [simp]: "length (iter_swap g a b) = length g"
  by (simp add: iter_swap_def)

lemma iter_swap_nth:
  "a < length g \<Longrightarrow> b < length g \<Longrightarrow>
     iter_swap g a b ! k = (if k = b then g ! a else if k = a then g ! b else g ! k)"
  by (simp add: iter_swap_def nth_list_update)

lemma inner_loop_steps:
  fixes st b :: int
  assumes st: "st \<noteq> 0"
    and rng: "\<And>k. k < sz \<Longrightarrow> 0 \<le> b + int k * st \<and> b + int k * st < int N"
    and skip: "\<And>j t m s. I j t m s \<Longrightarrow> length (grid s) = N \<Longrightarrow> t < j \<Longrightarrow> j < sz \<Longrightarrow>
        grid s ! nat (b + int j * st) = 0 \<Longrightarrow> I (j + 1) t m s"
    and fill: "\<And>j t m s. I j t m s \<Longrightarrow> length (grid s) = N \<Longrightarrow> t < j \<Longrightarrow> j < sz \<Longrightarrow>
        grid s ! nat (b + int j * st) \<noteq> 0 \<Longrightarrow> grid s ! nat (b + int t * st) = 0 \<Longrightarrow>
        I (j + 1) t True (s\<lparr>grid := iter_swap (grid s) (nat (b + int j * st)) (nat (b + int t * st))\<rparr>)"
    and merge: "\<And>j t m s. I j t m s \<Longrightarrow> length (grid s) = N \<Longrightarrow> t < j \<Longrightarrow> j < sz \<Longrightarrow>
        grid s ! nat (b + int j * st) \<noteq> 0 \<Longrightarrow>
        grid s ! nat (b + int t * st) = grid s ! nat (b + int j * st) \<Longrightarrow>
        I (j + 1) (t + 1) True
          (s\<lparr>grid := ((grid s)[nat (b + int j * st) := 0])
                      [nat (b + int t * st) := grid s ! nat (b + int t * st) + 1],
             empty_cells_count := empty_cells_count s + 1,
             score := score s + push_bit (unat (grid s ! nat (b + int t * st)) mod 32) 1\<rparr>)"
    and keep: "\<And>j t m s. I j t m s \<Longrightarrow> length (grid s) = N \<Longrightarrow> t + 1 = j \<Longrightarrow> j < sz \<Longrightarrow>
        grid s ! nat (b + int j * st) \<noteq> 0 \<Longrightarrow> grid s ! nat (b + int t * st) \<noteq> 0 \<Longrightarrow>
        grid s ! nat (b + int j * st) \<noteq> grid s ! nat (b + int t * st) \<Longrightarrow> I (j + 1) (t + 1) m s"
    and close: "\<And>j t m s. I j t m s \<Longrightarrow> length (grid s) = N \<Longrightarrow> t + 1 < j \<Longrightarrow> j < sz \<Longrightarrow>
        grid s ! nat (b + int j * st) \<noteq> 0 \<Longrightarrow> grid s ! nat (b + int t * st) \<noteq> 0 \<Longrightarrow>
        grid s ! nat (b + int j * st) \<noteq> grid s ! nat (b + int t * st) \<Longrightarrow>
        grid s ! nat (b + int (t + 1) * st) = 0 \<Longrightarrow>
        I (j + 1) (t + 1) True
          (s\<lparr>grid := iter_swap (grid s) (nat (b + int j * st)) (nat (b + int (t + 1) * st))\<rparr>)"
  shows "t < j \<Longrightarrow> j \<le> sz \<Longrightarrow> length (grid s) = N \<Longrightarrow>
         (\<forall>l. t < l \<and> l < j \<longrightarrow> grid s ! nat (b + int l * st) = 0) \<Longrightarrow> I j t modified s \<Longrightarrow>
         (case inner_loop sz st j (b + int j * st) (b + int t * st) modified s of
            (m', s') \<Rightarrow> (\<exists>t'. I sz t' m' s') \<and> length (grid s') = N)"
proof (induction "sz - j" arbitrary: j t modified s)
  case 0
  then have "\<not> j < sz" by simp
  with 0 have "j = sz" by simp
  with 0 show ?case by (subst inner_loop.simps) auto
next
  case (Suc n)
  then have jsz: "j < sz" by simp
  let ?g = "grid s"
  let ?p = "nat (b + int j * st)"
  let ?q = "nat (b + int t * st)"
  let ?q' = "nat (b + int (t + 1) * st)"
  from Suc.prems jsz have tsz: "t < sz" by simp
  have pN: "?p < N" using rng[OF jsz] by linarith
  have qN: "?q < N" using rng[OF tsz] by linarith
  have ord: "0 < st \<longrightarrow> ?q < ?p" "st < 0 \<longrightarrow> ?p < ?q"
    using cell_less_pos[of st b t j] cell_less_neg[of st b j t] rng[OF jsz] rng[OF tsz] Suc.prems(1)
    by auto
  have pq: "?p \<noteq> ?q"
    using cell_distinct[OF st, of b j t] rng[OF jsz] rng[OF tsz] Suc.prems(1) by simp
  have n: "n = sz - (j + 1)" using Suc.hyps(2) by simp
  have j1: "j + 1 \<le> sz" using jsz by simp
  have itn: "b + int j * st + st = b + int (j + 1) * st" by (simp add: algebra_simps)
  have tpn: "b + int t * st + st = b + int (t + 1) * st" by (simp add: algebra_simps)
  have other: "\<And>l. l < sz \<Longrightarrow> l \<noteq> j \<Longrightarrow> nat (b + int l * st) \<noteq> ?p"
    using cell_distinct[OF st] rng jsz by blast
  have otherq: "\<And>l. l < sz \<Longrightarrow> l \<noteq> t \<Longrightarrow> nat (b + int l * st) \<noteq> ?q"
    using cell_distinct[OF st] rng tsz by blast
  have unf: "inner_loop sz st j (b + int j * st) (b + int t * st) modified s =
        (case move_helper_body st (b + int j * st) (b + int t * st) modified s of
           (tp', modified', s') \<Rightarrow> inner_loop sz st (j + 1) (b + int (j + 1) * st) tp' modified' s')"
    using jsz by (subst inner_loop.simps) (simp add: itn)
  show ?case
  proof (cases "?g ! ?p = 0")
    case True
    then have body: "move_helper_body st (b + int j * st) (b + int t * st) modified s
        = (b + int t * st, modified, s)"
      by (simp add: move_helper_body_def)
    have gap: "\<forall>l. t < l \<and> l < j + 1 \<longrightarrow> grid s ! nat (b + int l * st) = 0"
      using Suc.prems(4) True by (auto simp: less_Suc_eq)
    have I': "I (j + 1) t modified s"
      using skip[OF Suc.prems(5) Suc.prems(3) Suc.prems(1) jsz True] .
    from Suc.hyps(1)[OF n _ j1 Suc.prems(3) gap I'] Suc.prems(1)
    show ?thesis by (simp add: unf body)
  next
    case pnz: False
    show ?thesis
    proof (cases "?g ! ?q = 0")
      case True
      let ?s' = "s\<lparr>grid := iter_swap ?g ?p ?q\<rparr>"
      have body: "move_helper_body st (b + int j * st) (b + int t * st) modified s
          = (b + int t * st, True, ?s')"
        using pnz True by (simp add: move_helper_body_def)
      have I': "I (j + 1) t True ?s'"
        using fill[OF Suc.prems(5) Suc.prems(3) Suc.prems(1) jsz pnz True] .
      have len: "length (grid ?s') = N" using Suc.prems(3) by simp
      have gap: "\<forall>l. t < l \<and> l < j + 1 \<longrightarrow> grid ?s' ! nat (b + int l * st) = 0"
      proof (intro allI impI)
        fix l assume l: "t < l \<and> l < j + 1"
        show "grid ?s' ! nat (b + int l * st) = 0"
        proof (cases "l = j")
          case True
          then show ?thesis using pN qN Suc.prems(3) pq \<open>?g ! ?q = 0\<close>
            by (simp add: iter_swap_nth)
        next
          case False
          with l have l2: "t < l" "l < j" "l < sz" using jsz by auto
          then have "nat (b + int l * st) \<noteq> ?p" "nat (b + int l * st) \<noteq> ?q"
            using other otherq by auto
          moreover have "?g ! nat (b + int l * st) = 0" using Suc.prems(4) l2 by blast
          ultimately show ?thesis using pN qN Suc.prems(3) by (simp add: iter_swap_nth)
        qed
      qed
      from Suc.hyps(1)[OF n _ j1 len gap I'] Suc.prems(1)
      show ?thesis by (simp add: unf body)
    next
      case qnz: False
      show ?thesis
      proof (cases "?g ! ?p = ?g ! ?q")
        case True
        let ?s' = "s\<lparr>grid := (?g[?p := 0])[?q := ?g ! ?q + 1],
                  empty_cells_count := empty_cells_count s + 1,
                  score := score s + push_bit (unat (?g ! ?q) mod 32) 1\<rparr>"
        have g1: "?g[?p := 0] ! ?q = ?g ! ?q" using pq by simp
        have body: "move_helper_body st (b + int j * st) (b + int t * st) modified s
            = (b + int (t + 1) * st, True, ?s')"
          using pnz qnz True by (simp add: move_helper_body_def Let_def g1 tpn)
        have I': "I (j + 1) (t + 1) True ?s'"
          using merge[OF Suc.prems(5) Suc.prems(3) Suc.prems(1) jsz pnz True[symmetric]] .
        have len: "length (grid ?s') = N" using Suc.prems(3) by simp
        have gap: "\<forall>l. t + 1 < l \<and> l < j + 1 \<longrightarrow> grid ?s' ! nat (b + int l * st) = 0"
        proof (intro allI impI)
          fix l assume l: "t + 1 < l \<and> l < j + 1"
          show "grid ?s' ! nat (b + int l * st) = 0"
          proof (cases "l = j")
            case True
            then show ?thesis using pN qN Suc.prems(3) pq by simp
          next
            case False
            with l have l2: "t < l" "l < j" "l < sz" "l \<noteq> t" using jsz by auto
            then have "nat (b + int l * st) \<noteq> ?p" "nat (b + int l * st) \<noteq> ?q"
              using other otherq by auto
            moreover have "?g ! nat (b + int l * st) = 0" using Suc.prems(4) l2 by blast
            ultimately show ?thesis by simp
          qed
        qed
        have "t + 1 < j + 1" using Suc.prems(1) by simp
        from Suc.hyps(1)[OF n this j1 len gap I']
        show ?thesis by (simp add: unf body)
      next
        case ne: False
        show ?thesis
        proof (cases "t + 1 = j")
          case True
          have body: "move_helper_body st (b + int j * st) (b + int t * st) modified s
              = (b + int (t + 1) * st, modified, s)"
            using pnz qnz ne True by (simp add: move_helper_body_def Let_def tpn)
          have gap: "\<forall>l. t + 1 < l \<and> l < j + 1 \<longrightarrow> grid s ! nat (b + int l * st) = 0"
            using True by auto
          have "t + 1 < j + 1" using Suc.prems(1) by simp
          have I': "I (j + 1) (t + 1) modified s"
            using keep[OF Suc.prems(5) Suc.prems(3) True jsz pnz qnz ne] .
          from Suc.hyps(1)[OF n \<open>t + 1 < j + 1\<close> j1 Suc.prems(3) gap I']
          show ?thesis by (simp add: unf body)
        next
          case False
          then have t1: "t < t + 1" "t + 1 < j" "t + 1 < sz" using Suc.prems(1) jsz by auto
          let ?s' = "s\<lparr>grid := iter_swap ?g ?p ?q'\<rparr>"
          have q'N: "?q' < N" using rng[OF t1(3)] by linarith
          have ord': "0 < st \<longrightarrow> ?q' < ?p" "st < 0 \<longrightarrow> ?p < ?q'"
            using cell_less_pos[of st b "t + 1" j] cell_less_neg[of st b j "t + 1"]
              rng[OF jsz] rng[OF t1(3)] t1(2) by auto
          have pq': "?p \<noteq> ?q'"
            using cell_distinct[OF st, of b j "t + 1"] rng[OF jsz] rng[OF t1(3)] t1(2) by simp
          have q'0: "?g ! ?q' = 0" using Suc.prems(4) t1 by blast
          have "b + int (t + 1) * st \<noteq> b + int j * st"
            using pq' by auto
          then have body: "move_helper_body st (b + int j * st) (b + int t * st) modified s
              = (b + int (t + 1) * st, True, ?s')"
            using pnz qnz ne by (simp add: move_helper_body_def Let_def tpn)
          have I': "I (j + 1) (t + 1) True ?s'"
            using close[OF Suc.prems(5) Suc.prems(3) t1(2) jsz pnz qnz ne q'0] .
          have len: "length (grid ?s') = N" using Suc.prems(3) by simp
          have otherq': "\<And>l. l < sz \<Longrightarrow> l \<noteq> t + 1 \<Longrightarrow> nat (b + int l * st) \<noteq> ?q'"
            using cell_distinct[OF st] rng t1(3) by blast
          have gap: "\<forall>l. t + 1 < l \<and> l < j + 1 \<longrightarrow> grid ?s' ! nat (b + int l * st) = 0"
          proof (intro allI impI)
            fix l assume l: "t + 1 < l \<and> l < j + 1"
            show "grid ?s' ! nat (b + int l * st) = 0"
            proof (cases "l = j")
              case True
              then show ?thesis using pN q'N Suc.prems(3) pq' q'0
                by (simp add: iter_swap_nth)
            next
              case False
              with l have l2: "t < l" "l < j" "l < sz" "l \<noteq> t + 1" using jsz by auto
              then have "nat (b + int l * st) \<noteq> ?p" "nat (b + int l * st) \<noteq> ?q'"
                using other otherq' by auto
              moreover have "?g ! nat (b + int l * st) = 0" using Suc.prems(4) l2 by blast
              ultimately show ?thesis using pN q'N Suc.prems(3) by (simp add: iter_swap_nth)
            qed
          qed
          have "t + 1 < j + 1" using Suc.prems(1) by simp
          from Suc.hyps(1)[OF n this j1 len gap I']
          show ?thesis by (simp add: unf body)
        qed
      qed
    qed
  qed
qed

lemma inner_loop_rule:
  fixes st b :: int
  assumes st: "st \<noteq> 0"
    and rng: "\<And>k. k < sz \<Longrightarrow> 0 \<le> b + int k * st \<and> b + int k * st < int N"
    and slide: "\<And>m s p q. I m s \<Longrightarrow> length (grid s) = N \<Longrightarrow> p < N \<Longrightarrow> q < N \<Longrightarrow> p \<noteq> q \<Longrightarrow>
        (0 < st \<longrightarrow> q < p) \<Longrightarrow> (st < 0 \<longrightarrow> p < q) \<Longrightarrow> grid s ! p \<noteq> 0 \<Longrightarrow> grid s ! q = 0 \<Longrightarrow>
        I True (s\<lparr>grid := iter_swap (grid s) p q\<rparr>)"
    and merge: "\<And>m s p q. I m s \<Longrightarrow> length (grid s) = N \<Longrightarrow> p < N \<Longrightarrow> q < N \<Longrightarrow> p \<noteq> q \<Longrightarrow>
        (0 < st \<longrightarrow> q < p) \<Longrightarrow> (st < 0 \<longrightarrow> p < q) \<Longrightarrow> grid s ! p \<noteq> 0 \<Longrightarrow> grid s ! q = grid s ! p \<Longrightarrow>
        I True (s\<lparr>grid := ((grid s)[p := 0])[q := grid s ! q + 1],
                  empty_cells_count := empty_cells_count s + 1,
                  score := score s + push_bit (unat (grid s ! q) mod 32) 1\<rparr>)"
    and pre: "t < j" "j \<le> sz" "length (grid s) = N"
      "\<forall>l. t < l \<and> l < j \<longrightarrow> grid s ! nat (b + int l * st) = 0" "I modified s"
  shows "case inner_loop sz st j (b + int j * st) (b + int t * st) modified s of
            (m', s') \<Rightarrow> I m' s' \<and> length (grid s') = N"
proof -
  have cells: "nat (b + int k * st) < N \<and> nat (b + int l * st) < N \<and>
      nat (b + int k * st) \<noteq> nat (b + int l * st) \<and>
      (0 < st \<longrightarrow> nat (b + int l * st) < nat (b + int k * st)) \<and>
      (st < 0 \<longrightarrow> nat (b + int k * st) < nat (b + int l * st))"
    if "l < k" "k < sz" for k l
  proof -
    from that have l: "l < sz" by simp
    have "nat (b + int k * st) \<noteq> nat (b + int l * st)"
      using cell_distinct[OF st, of b k l] rng[OF that(2)] rng[OF l] that(1) by simp
    then show ?thesis
      using cell_less_pos[of st b l k] cell_less_neg[of st b k l] rng[OF that(2)] rng[OF l] that(1)
      by auto
  qed
  have "case inner_loop sz st j (b + int j * st) (b + int t * st) modified s of
            (m', s') \<Rightarrow> (\<exists>t'::nat. I m' s') \<and> length (grid s') = N"
  proof (rule inner_loop_steps[where I = "\<lambda>j t. I", OF st rng _ _ _ _ _ pre])
    fix j t m s
    assume "I m s" "length (grid s) = N" "t < j" "j < sz"
      "grid s ! nat (b + int j * st) \<noteq> 0" "grid s ! nat (b + int t * st) = 0"
    then show "I True (s\<lparr>grid := iter_swap (grid s) (nat (b + int j * st)) (nat (b + int t * st))\<rparr>)"
      using slide[of m s "nat (b + int j * st)" "nat (b + int t * st)"] cells[of t j] by blast
  next
    fix j t m s
    assume "I m s" "length (grid s) = N" "t < j" "j < sz"
      "grid s ! nat (b + int j * st) \<noteq> 0"
      "grid s ! nat (b + int t * st) = grid s ! nat (b + int j * st)"
    then show "I True (s\<lparr>grid := ((grid s)[nat (b + int j * st) := 0])
                      [nat (b + int t * st) := grid s ! nat (b + int t * st) + 1],
             empty_cells_count := empty_cells_count s + 1,
             score := score s + push_bit (unat (grid s ! nat (b + int t * st)) mod 32) 1\<rparr>)"
      using merge[of m s "nat (b + int j * st)" "nat (b + int t * st)"] cells[of t j] by blast
  next
    fix j t m s
    assume "I m s" "length (grid s) = N" "t + 1 < j" "j < sz"
      "grid s ! nat (b + int j * st) \<noteq> 0" "grid s ! nat (b + int (t + 1) * st) = 0"
    then show "I True (s\<lparr>grid := iter_swap (grid s) (nat (b + int j * st)) (nat (b + int (t + 1) * st))\<rparr>)"
      using slide[of m s "nat (b + int j * st)" "nat (b + int (t + 1) * st)"] cells[of "t + 1" j] by blast
  qed
  then show ?thesis by (simp split: prod.splits)
qed

lemma outer_loop_rule:
  fixes st ts tst :: int
  assumes st: "st \<noteq> 0"
    and rng: "\<And>i k. i < sz \<Longrightarrow> k < sz \<Longrightarrow>
                0 \<le> ts + int i * tst + int k * st \<and> ts + int i * tst + int k * st < int N"
    and slide: "\<And>m s p q. I m s \<Longrightarrow> length (grid s) = N \<Longrightarrow> p < N \<Longrightarrow> q < N \<Longrightarrow> p \<noteq> q \<Longrightarrow>
        (0 < st \<longrightarrow> q < p) \<Longrightarrow> (st < 0 \<longrightarrow> p < q) \<Longrightarrow> grid s ! p \<noteq> 0 \<Longrightarrow> grid s ! q = 0 \<Longrightarrow>
        I True (s\<lparr>grid := iter_swap (grid s) p q\<rparr>)"
    and merge: "\<And>m s p q. I m s \<Longrightarrow> length (grid s) = N \<Longrightarrow> p < N \<Longrightarrow> q < N \<Longrightarrow> p \<noteq> q \<Longrightarrow>
        (0 < st \<longrightarrow> q < p) \<Longrightarrow> (st < 0 \<longrightarrow> p < q) \<Longrightarrow> grid s ! p \<noteq> 0 \<Longrightarrow> grid s ! q = grid s ! p \<Longrightarrow>
        I True (s\<lparr>grid := ((grid s)[p := 0])[q := grid s ! q + 1],
                  empty_cells_count := empty_cells_count s + 1,
                  score := score s + push_bit (unat (grid s ! q) mod 32) 1\<rparr>)"
  shows "length (grid s) = N \<Longrightarrow> I modified s \<Longrightarrow>
         (case outer_loop sz ts tst st i (ts + int i * tst) modified s of
            (m', s') \<Rightarrow> I m' s' \<and> length (grid s') = N)"
proof (induction "sz - i" arbitrary: i modified s)
  case 0
  then have "\<not> i < sz" by simp
  with 0 show ?case by (subst outer_loop.simps) simp
next
  case (Suc n)
  then have isz: "i < sz" by simp
  then have one: "0 < (1::nat)" "1 \<le> sz" by simp_all
  let ?b = "ts + int i * tst"
  have gap: "\<forall>l. 0 < l \<and> l < 1 \<longrightarrow> grid s ! nat (?b + int l * st) = 0" by simp
  have r: "\<And>k. k < sz \<Longrightarrow> 0 \<le> ?b + int k * st \<and> ?b + int k * st < int N"
    using rng[OF isz] .
  have inner: "case inner_loop sz st 1 (?b + int 1 * st) (?b + int 0 * st) modified s of
            (m', s') \<Rightarrow> I m' s' \<and> length (grid s') = N"
    by (rule inner_loop_rule[where I = I, OF st r slide merge one Suc.prems(1) gap Suc.prems(2)])
  obtain m' s' where res: "inner_loop sz st 1 (?b + st) ?b modified s = (m', s')"
    by (cases "inner_loop sz st 1 (?b + st) ?b modified s")
  with inner have I': "I m' s'" and len: "length (grid s') = N" by simp_all
  have n: "n = sz - (i + 1)" using Suc.hyps(2) by simp
  have unf: "outer_loop sz ts tst st i ?b modified s
      = outer_loop sz ts tst st (i + 1) (ts + int (i + 1) * tst) m' s'"
    using isz res by (subst outer_loop.simps) simp
  from Suc.hyps(1)[OF n len I'] show ?case unfolding unf .
qed

lemma it_stride_nonzero: "0 < sz \<Longrightarrow> it_stride_of sz d \<noteq> 0"
  by (cases d) simp_all

lemma line_cells_in_range:
  assumes "i < sz" "k < sz"
  shows "0 \<le> top_start_of sz d + int i * top_stride_of sz d + int k * it_stride_of sz d \<and>
         top_start_of sz d + int i * top_stride_of sz d + int k * it_stride_of sz d < int (sz * sz)"
proof -
  define a where "a = int k * int sz"
  define c where "c = int i * int sz"
  define n where "n = int sz * int sz"
  have i: "int i \<le> int sz - 1" "0 \<le> int i" and k: "int k \<le> int sz - 1" "0 \<le> int k"
    using assms by simp_all
  have "int k * int sz \<le> (int sz - 1) * int sz" using k by (intro mult_right_mono) simp_all
  then have a: "a \<le> n - int sz" "0 \<le> a" by (simp_all add: a_def n_def algebra_simps)
  have "int i * int sz \<le> (int sz - 1) * int sz" using i by (intro mult_right_mono) simp_all
  then have c: "c \<le> n - int sz" "0 \<le> c" by (simp_all add: c_def n_def algebra_simps)
  have n: "int (sz * sz) = n" by (simp add: n_def)
  show ?thesis
  proof (cases d)
    case up
    then have "top_start_of sz d + int i * top_stride_of sz d + int k * it_stride_of sz d
        = int i + a" by (simp add: top_start_of_def a_def)
    then show ?thesis unfolding n using i a by linarith
  next
    case down
    then have "top_start_of sz d + int i * top_stride_of sz d + int k * it_stride_of sz d
        = n - 1 - int i - a" by (simp add: top_start_of_def a_def n_def)
    then show ?thesis unfolding n using i a by linarith
  next
    case left
    then have "top_start_of sz d + int i * top_stride_of sz d + int k * it_stride_of sz d
        = c + int k" by (simp add: top_start_of_def c_def)
    then show ?thesis unfolding n using k c by linarith
  next
    case right
    then have "top_start_of sz d + int i * top_stride_of sz d + int k * it_stride_of sz d
        = n - 1 - c - int k" by (simp add: top_start_of_def c_def n_def)
    then show ?thesis unfolding n using k c by linarith
  qed
qed

lemma move_helper_rule:
  assumes len: "length (grid s) = sz * sz"
    and I0: "I False s"
    and slide: "\<And>m s p q. I m s \<Longrightarrow> length (grid s) = sz * sz \<Longrightarrow> p < sz * sz \<Longrightarrow> q < sz * sz \<Longrightarrow> p \<noteq> q \<Longrightarrow>
        (0 < it_stride_of sz d \<longrightarrow> q < p) \<Longrightarrow> (it_stride_of sz d < 0 \<longrightarrow> p < q) \<Longrightarrow>
        grid s ! p \<noteq> 0 \<Longrightarrow> grid s ! q = 0 \<Longrightarrow>
        I True (s\<lparr>grid := iter_swap (grid s) p q\<rparr>)"
    and merge: "\<And>m s p q. I m s \<Longrightarrow> length (grid s) = sz * sz \<Longrightarrow> p < sz * sz \<Longrightarrow> q < sz * sz \<Longrightarrow> p \<noteq> q \<Longrightarrow>
        (0 < it_stride_of sz d \<longrightarrow> q < p) \<Longrightarrow> (it_stride_of sz d < 0 \<longrightarrow> p < q) \<Longrightarrow>
        grid s ! p \<noteq> 0 \<Longrightarrow> grid s ! q = grid s ! p \<Longrightarrow>
        I True (s\<lparr>grid := ((grid s)[p := 0])[q := grid s ! q + 1],
                  empty_cells_count := empty_cells_count s + 1,
                  score := score s + push_bit (unat (grid s ! q) mod 32) 1\<rparr>)"
  shows "case move_helper sz d s of (m', s') \<Rightarrow> I m' s' \<and> length (grid s') = sz * sz"
proof (cases "sz = 0")
  case True
  then show ?thesis using I0 len by (simp add: move_helper_def outer_loop.simps)
next
  case False
  then have st: "it_stride_of sz d \<noteq> 0" by (simp add: it_stride_nonzero)
  have "case outer_loop sz (top_start_of sz d) (top_stride_of sz d) (it_stride_of sz d) 0
              (top_start_of sz d + int 0 * top_stride_of sz d) False s of
            (m', s') \<Rightarrow> I m' s' \<and> length (grid s') = sz * sz"
    by (rule outer_loop_rule[where I = I, OF st line_cells_in_range slide merge len I0])
  then show ?thesis by (simp add: move_helper_def)
qed

section \<open>The count of empty cells on the boards the engine builds\<close>

text \<open>
  On a board of at most 254 cells that satisfies \<^const>\<open>tiles_bounded\<close>, two equal tiles have
  an exponent of at most the number of cells, so a merge never wraps; the pass and the spawn
  keep \<^const>\<open>grid_inv\<close>.
\<close>

lemma filter_iter_swap_count:
  assumes "p < length g" "q < length g"
  shows "length (filter P (iter_swap g p q)) = length (filter P g)"
proof -
  let ?h = "g[p := g ! q]"
  have 1: "length (filter P ?h) + (if P (g ! p) then 1 else 0)
      = length (filter P g) + (if P (g ! q) then 1 else 0)"
    using filter_update_count[OF assms(1), of P "g ! q"] .
  have hq: "?h ! q = g ! q" using assms by (simp add: nth_list_update)
  have "q < length ?h" using assms by simp
  from filter_update_count[OF this, of P "g ! p"] hq
  have 2: "length (filter P (?h[q := g ! p])) + (if P (g ! q) then 1 else 0)
      = length (filter P ?h) + (if P (g ! p) then 1 else 0)" by simp
  from 1 2 show ?thesis by (simp add: iter_swap_def split: if_splits)
qed

lemma zero_cells_iter_swap:
  "p < length g \<Longrightarrow> q < length g \<Longrightarrow> zero_cells (iter_swap g p q) = zero_cells g"
  unfolding zero_cells_def by (rule filter_iter_swap_count)

lemma count_ge_iter_swap:
  "p < length g \<Longrightarrow> q < length g \<Longrightarrow> count_ge (iter_swap g p q) j = count_ge g j"
  unfolding count_ge_def by (rule filter_iter_swap_count)

lemma count_ge_update:
  "i < length g \<Longrightarrow>
     count_ge (g[i := v]) j + (if j \<le> unat (g ! i) then 1 else 0)
       = count_ge g j + (if j \<le> unat v then 1 else 0)"
  unfolding count_ge_def by (rule filter_update_count)

lemma count_ge_le_length: "count_ge g j \<le> length g"
  by (simp add: count_ge_def)

lemma count_ge_antimono: "j \<le> j' \<Longrightarrow> count_ge g j' \<le> count_ge g j"
proof (induction g)
  case Nil
  then show ?case by (simp add: count_ge_def)
next
  case (Cons x g)
  then show ?case by (auto simp: count_ge_def)
qed

lemma zero_cells_pos: "p < length g \<Longrightarrow> g ! p = 0 \<Longrightarrow> 0 < zero_cells g"
proof -
  assume "p < length g" "g ! p = 0"
  then have "g ! p \<in> set (filter (\<lambda>x. x = 0) g)" using nth_mem[of p g] by simp
  then show ?thesis unfolding zero_cells_def by (metis length_pos_if_in_set)
qed

lemma zero_cells_lt: "p < length g \<Longrightarrow> g ! p \<noteq> 0 \<Longrightarrow> zero_cells g < length g"
proof -
  assume a: "p < length g" "g ! p \<noteq> 0"
  from zero_cells_update[OF a(1), of 0] a(2) have "zero_cells (g[p := 0]) = zero_cells g + 1" by simp
  moreover have "zero_cells (g[p := 0]) \<le> length g" using zero_cells_le[of "g[p := 0]"] by simp
  ultimately show ?thesis by simp
qed

text \<open>The merge step on the counts.\<close>

lemma merge_counts:
  assumes p: "p < length g" and q: "q < length g" and pq: "p \<noteq> q"
    and e: "g ! p \<noteq> 0" "g ! q = g ! p" and tb: "tiles_bounded g" and N: "length g \<le> 254"
  defines "g' \<equiv> (g[p := 0])[q := g ! q + 1]"
  shows "zero_cells g' = zero_cells g + 1" and "tiles_bounded g'" and "unat (g ! q + 1) = unat (g ! q) + 1"
proof -
  let ?e = "unat (g ! p)"
  let ?g1 = "g[p := 0]"
  have epos: "0 < ?e" using e(1) by (simp add: unat_gt_0)
  have q1: "q < length ?g1" using q by simp
  have g1q: "?g1 ! q = g ! p" using pq q e(2) by simp
  \<comment> \<open>two cells hold the exponent, so the bound at \<open>?e\<close> limits it\<close>
  have c1: "count_ge ?g1 j + (if j \<le> ?e then 1 else 0) = count_ge g j + (if j = 0 then 1 else 0)" for j
    using count_ge_update[OF p, of 0 j] by simp
  have c2: "count_ge (?g1[q := 0]) j + (if j \<le> ?e then 1 else 0)
      = count_ge ?g1 j + (if j = 0 then 1 else 0)" for j
    using count_ge_update[OF q1, of 0 j] g1q by simp
  have "count_ge g ?e = count_ge (?g1[q := 0]) ?e + 2" using c1[of ?e] c2[of ?e] epos by simp
  then have two: "2 \<le> count_ge g ?e" by simp
  from tb have "count_ge g ?e \<le> length g + 2 - ?e" by (simp add: tiles_bounded_def)
  with two have eN: "?e \<le> length g" by simp
  with N have "?e < 255" by simp
  then have "unat (g ! p + 1) = ?e + 1" by (simp add: unat_word_ariths)
  then show inc: "unat (g ! q + 1) = unat (g ! q) + 1" using e(2) by simp
  then have nz: "g ! q + 1 \<noteq> 0" by (metis Suc_eq_plus1 nat.simps(3) unat_0)
  have "zero_cells ?g1 = zero_cells g + 1" using zero_cells_update[OF p, of 0] e(1) by simp
  moreover have "zero_cells g' = zero_cells ?g1"
    using zero_cells_update[OF q1, of "g ! q + 1"] g1q e nz by (simp add: g'_def)
  ultimately show "zero_cells g' = zero_cells g + 1" by simp
  have c3: "count_ge g' j + (if j \<le> ?e then 1 else 0)
      = count_ge ?g1 j + (if j \<le> ?e + 1 then 1 else 0)" for j
    using count_ge_update[OF q1, of "g ! q + 1" j] g1q inc e(2) by (simp add: g'_def)
  have len: "length g' = length g" by (simp add: g'_def)
  show "tiles_bounded g'"
    unfolding tiles_bounded_def
  proof
    fix j
    consider "j = 0" | "0 < j" "j \<le> ?e" | "j = ?e + 1" | "?e + 1 < j" by linarith
    then show "count_ge g' j \<le> length g' + 2 - j"
    proof cases
      case 1
      then show ?thesis using count_ge_le_length[of g' 0] by simp
    next
      case 2
      then have "count_ge g' j + 1 = count_ge g j" using c1[of j] c3[of j] by simp
      moreover from tb have "count_ge g j \<le> length g + 2 - j" by (simp add: tiles_bounded_def)
      ultimately show ?thesis using len by simp
    next
      case 3
      then have a: "count_ge g' j = count_ge g j + 1" using c1[of j] c3[of j] by simp
      have b: "count_ge (?g1[q := 0]) j = count_ge g j" using c1[of j] c2[of j] 3 by simp
      have "count_ge (?g1[q := 0]) j \<le> count_ge (?g1[q := 0]) ?e"
        using 3 by (intro count_ge_antimono) simp
      with b \<open>count_ge g ?e = count_ge (?g1[q := 0]) ?e + 2\<close>
      have "count_ge g j + 2 \<le> count_ge g ?e" by simp
      moreover from tb have "count_ge g ?e \<le> length g + 2 - ?e" by (simp add: tiles_bounded_def)
      ultimately show ?thesis using a 3 len by simp
    next
      case 4
      then have "count_ge g' j = count_ge g j" using c1[of j] c3[of j] by simp
      moreover from tb have "count_ge g j \<le> length g + 2 - j" by (simp add: tiles_bounded_def)
      ultimately show ?thesis using len by simp
    qed
  qed
qed

lemma spawn_counts:
  assumes i: "i < length g" and z: "g ! i = 0" and tb: "tiles_bounded g" and v: "v = 1 \<or> v = 2"
  shows "zero_cells (g[i := v]) + 1 = zero_cells g" and "tiles_bounded (g[i := v])"
proof -
  have vnz: "v \<noteq> 0" using v by auto
  show "zero_cells (g[i := v]) + 1 = zero_cells g"
    using zero_cells_update[OF i, of v] z vnz by simp
  have uv: "unat v \<le> 2" using v by auto
  have c: "count_ge (g[i := v]) j + (if j = 0 then 1 else 0)
      = count_ge g j + (if j \<le> unat v then 1 else 0)" for j
    using count_ge_update[OF i, of v j] z by simp
  show "tiles_bounded (g[i := v])"
    unfolding tiles_bounded_def
  proof
    fix j
    show "count_ge (g[i := v]) j \<le> length (g[i := v]) + 2 - j"
    proof (cases "j \<le> 2")
      case True
      then show ?thesis using count_ge_le_length[of "g[i := v]" j] by simp
    next
      case False
      with uv have "count_ge (g[i := v]) j = count_ge g j" using c[of j] by simp
      moreover from tb have "count_ge g j \<le> length g + 2 - j" by (simp add: tiles_bounded_def)
      ultimately show ?thesis by simp
    qed
  qed
qed

lemma unat_ec_suc:
  fixes ec :: "16 word"
  assumes "unat ec < 65535"
  shows "unat (ec + 1) = unat ec + 1"
  using assms by (simp add: unat_word_ariths)

lemma move_helper_inv:
  assumes inv: "grid_inv sz s" and N: "sz * sz \<le> 254"
  shows "case move_helper sz d s of
           (m, s') \<Rightarrow> (grid_inv sz s' \<and> (m \<longrightarrow> 0 < zero_cells (grid s'))) \<and> length (grid s') = sz * sz"
proof (rule move_helper_rule[where I = "\<lambda>m s. grid_inv sz s \<and> (m \<longrightarrow> 0 < zero_cells (grid s))"])
  show "length (grid s) = sz * sz" using inv by (simp add: grid_inv_def)
  show "grid_inv sz s \<and> (False \<longrightarrow> 0 < zero_cells (grid s))" using inv by simp
next
  fix m s p q
  assume I: "grid_inv sz s \<and> (m \<longrightarrow> 0 < zero_cells (grid s))"
    and len: "length (grid s) = sz * sz" and p: "p < sz * sz" and q: "q < sz * sz"
    and pnz: "grid s ! p \<noteq> 0" and qz: "grid s ! q = 0"
  have pl: "p < length (grid s)" and ql: "q < length (grid s)" using p q len by simp_all
  have "0 < zero_cells (grid s)" using zero_cells_pos[OF ql qz] .
  moreover have "tiles_bounded (grid s)" using I by (simp add: grid_inv_def)
  then have "tiles_bounded (iter_swap (grid s) p q)"
    using pl ql by (simp add: tiles_bounded_def count_ge_iter_swap)
  ultimately show "grid_inv sz (s\<lparr>grid := iter_swap (grid s) p q\<rparr>) \<and>
      (True \<longrightarrow> 0 < zero_cells (grid (s\<lparr>grid := iter_swap (grid s) p q\<rparr>)))"
    using I pl ql by (simp add: grid_inv_def zero_cells_iter_swap)
next
  fix m s p q
  assume I: "grid_inv sz s \<and> (m \<longrightarrow> 0 < zero_cells (grid s))"
    and len: "length (grid s) = sz * sz" and p: "p < sz * sz" and q: "q < sz * sz" and pq: "p \<noteq> q"
    and ord: "0 < it_stride_of sz d \<longrightarrow> q < p" "it_stride_of sz d < 0 \<longrightarrow> p < q"
    and pnz: "grid s ! p \<noteq> 0" and eq: "grid s ! q = grid s ! p"
  let ?g' = "((grid s)[p := 0])[q := grid s ! q + 1]"
  have pl: "p < length (grid s)" and ql: "q < length (grid s)" using p q len by simp_all
  have tb: "tiles_bounded (grid s)" and ec: "unat (empty_cells_count s) = zero_cells (grid s)"
    using I by (simp_all add: grid_inv_def)
  have N': "length (grid s) \<le> 254" using N len by simp
  note mc = merge_counts[OF pl ql pq pnz eq tb N']
  have "zero_cells (grid s) < length (grid s)" using zero_cells_lt[OF pl pnz] .
  with ec N' have "unat (empty_cells_count s) < 65535" by simp
  then have "unat (empty_cells_count s + 1) = zero_cells (grid s) + 1"
    using unat_ec_suc ec by simp
  with mc(1,2) len show "grid_inv sz (s\<lparr>grid := ?g', empty_cells_count := empty_cells_count s + 1,
        score := score s + push_bit (unat (grid s ! q) mod 32) 1\<rparr>) \<and>
      (True \<longrightarrow> 0 < zero_cells (grid (s\<lparr>grid := ?g', empty_cells_count := empty_cells_count s + 1,
        score := score s + push_bit (unat (grid s ! q) mod 32) 1\<rparr>)))"
    by (simp add: grid_inv_def)
qed

lemma spawn_new_number_inv:
  assumes inv: "grid_inv sz s" and nz: "empty_cells_count s \<noteq> 0"
  shows "\<exists>s'. spawn_new_number s = Inr s' \<and> grid_inv sz s'"
proof -
  have ec: "unat (empty_cells_count s) = zero_cells (grid s)" and tb: "tiles_bounded (grid s)"
    and len: "length (grid s) = sz * sz"
    using inv by (simp_all add: grid_inv_def)
  let ?v = "spawn_value (Xorshift_call (Xorshift_call (prng s)))"
  from spawn_new_number_returns[OF nz ec] obtain i where i: "i < length (grid s)" "grid s ! i = 0"
    and r: "spawn_new_number s =
             Inr (s\<lparr>prng := Xorshift_call (Xorshift_call (prng s)),
                    grid := (grid s)[i := ?v],
                    empty_cells_count := empty_cells_count s - 1\<rparr>)" by blast
  note sc = spawn_counts[OF i tb spawn_value_cases]
  have "unat (empty_cells_count s - 1) = unat (empty_cells_count s) - 1"
    using nz by (simp add: unat_minus_one)
  with sc(1)[of "Xorshift_call (Xorshift_call (prng s))"] ec
  have "unat (empty_cells_count s - 1) = zero_cells ((grid s)[i := ?v])" by simp
  with sc(2) len r show ?thesis by (simp add: grid_inv_def)
qed

lemma move_inv:
  assumes inv: "grid_inv sz s" and N: "sz * sz \<le> 254"
  shows "\<exists>s'. move sz d s = Inr s' \<and> grid_inv sz s'"
proof (cases "empty_cells_count s = 0")
  case True
  then show ?thesis using inv by (simp add: move_def grid_inv_def)
next
  case False
  obtain m s1 where mh: "move_helper sz d s = (m, s1)" by (cases "move_helper sz d s")
  with move_helper_inv[OF inv N, of d]
  have inv1: "grid_inv sz s1" and pos: "m \<longrightarrow> 0 < zero_cells (grid s1)" by simp_all
  show ?thesis
  proof (cases m)
    case True
    with pos inv1 have "unat (empty_cells_count s1) \<noteq> 0" by (simp add: grid_inv_def)
    then have "empty_cells_count s1 \<noteq> 0" by auto
    from spawn_new_number_inv[OF inv1 this] show ?thesis using False mh True by (simp add: move_def)
  next
    case False
    then show ?thesis using \<open>empty_cells_count s \<noteq> 0\<close> mh inv1 by (simp add: move_def)
  qed
qed

lemma count_ge_replicate_0: "0 < j \<Longrightarrow> count_ge (replicate n 0) j = 0"
  by (simp add: count_ge_def)

lemma tiles_bounded_replicate_0: "tiles_bounded (replicate n 0)"
  unfolding tiles_bounded_def
proof
  fix j
  show "count_ge (replicate n 0) j \<le> length (replicate n 0) + 2 - j"
    using count_ge_replicate_0[of j n] count_ge_le_length[of "replicate n 0" j] by (cases "j = 0") simp_all
qed

lemma blank_inv:
  assumes "1 \<le> sz" "sz \<le> 255" "grid s = replicate (sz * sz) 0" "empty_cells_count s = of_nat (sz * sz)"
  shows "grid_inv sz s \<and> empty_cells_count s \<noteq> 0"
proof -
  have u: "unat (of_nat (sz * sz) :: 16 word) = sz * sz" using assms(2) by (rule unat_of_nat_sq)
  have "0 < sz * sz" using assms(1) by simp
  with u have "(of_nat (sz * sz) :: 16 word) \<noteq> 0" by (auto simp: word_unat_eq_iff simp del: of_nat_mult)
  then show ?thesis using assms(3,4) u
    by (simp add: grid_inv_def zero_cells_replicate tiles_bounded_replicate_0 del: of_nat_mult)
qed

lemma reset_inv:
  assumes "1 \<le> sz" "sz \<le> 255" "length (grid s) = sz * sz"
  shows "\<exists>s'. reset sz s = Inr s' \<and> grid_inv sz s'"
proof -
  let ?t = "s\<lparr>grid := replicate (length (grid s)) 0, empty_cells_count := of_nat (sz * sz)\<rparr>"
  have "grid_inv sz ?t \<and> empty_cells_count ?t \<noteq> 0"
    by (rule blank_inv[OF assms(1,2)]) (simp_all add: assms(3) del: of_nat_mult)
  then show ?thesis using spawn_new_number_inv[of sz ?t] by (simp add: reset_def del: of_nat_mult)
qed

lemma Grid_new_inv:
  assumes "1 \<le> sz" "sz \<le> 255"
  shows "\<exists>s. Grid_new sz seed = Inr s \<and> grid_inv sz s"
proof -
  let ?t = "\<lparr>prng = Xorshift seed, empty_cells_count = of_nat (sz * sz), score = 0,
        state = running, grid = replicate (sz * sz) 0\<rparr>"
  have "grid_inv sz ?t \<and> empty_cells_count ?t \<noteq> 0"
    by (rule blank_inv[OF assms(1,2)]) (simp_all del: of_nat_mult)
  then show ?thesis using spawn_new_number_inv[of sz ?t] by (simp add: Grid_new_def del: of_nat_mult)
qed

lemma sq_le_254: "sz \<le> 15 \<Longrightarrow> sz * sz \<le> (254::nat)"
proof -
  assume "sz \<le> 15"
  then have "sz * sz \<le> 15 * 15" by (intro mult_le_mono)
  then show ?thesis by simp
qed

lemma reachable_inv:
  assumes "1 \<le> sz" "sz \<le> 15" "reachable sz s"
  shows "grid_inv sz s"
  using assms(3)
proof (induction rule: reachable.induct)
  case (constructed seed s)
  with Grid_new_inv[of sz seed] assms(1,2) show ?case by auto
next
  case (moved s d s')
  with move_inv[OF moved.IH sq_le_254[OF assms(2)], of d] show ?case by auto
next
  case (was_reset s s')
  then have "length (grid s) = sz * sz" by (simp add: grid_inv_def)
  with reset_inv[of sz s] assms(1,2) was_reset show ?case by auto
qed

section \<open>The \<^verbatim>\<open>modified\<close> flag is exact\<close>

text \<open>
  Every slide and every merge moves a tile towards the leading edge or removes one, so the sum
  of the distances of the tiles from the leading edge, measured by \<^const>\<open>weight\<close>, drops
  whenever \<^verbatim>\<open>modified\<close> is set; a pass that sets the flag cannot end on the board it
  started from.
\<close>

lemma weight_update:
  assumes "i < length g"
  shows "weight w (g[i := v]) + (if g ! i \<noteq> 0 then w i else 0)
           = weight w g + (if v \<noteq> 0 then w i else 0)"
proof -
  let ?A = "{..<length g} - {i}"
  have fin: "finite {..<length g}" and mem: "i \<in> {..<length g}" using assms by simp_all
  have rest: "(\<Sum>p\<in>?A. if g[i := v] ! p \<noteq> 0 then w p else 0)
      = (\<Sum>p\<in>?A. if g ! p \<noteq> 0 then w p else 0)"
    by (rule sum.cong) simp_all
  have a: "weight w (g[i := v]) = (if v \<noteq> 0 then w i else 0)
      + (\<Sum>p\<in>?A. if g[i := v] ! p \<noteq> 0 then w p else 0)"
    unfolding weight_def using sum.remove[OF fin mem, of "\<lambda>p. if g[i := v] ! p \<noteq> 0 then w p else 0"] assms
    by simp
  have b: "weight w g = (if g ! i \<noteq> 0 then w i else 0)
      + (\<Sum>p\<in>?A. if g ! p \<noteq> 0 then w p else 0)"
    unfolding weight_def using sum.remove[OF fin mem, of "\<lambda>p. if g ! p \<noteq> 0 then w p else 0"]
    by simp
  from a b rest show ?thesis by simp
qed

lemma weight_slide:
  assumes p: "p < length g" and q: "q < length g" and pq: "p \<noteq> q"
    and pnz: "g ! p \<noteq> 0" and qz: "g ! q = 0" and w: "w q < w p"
  shows "weight w (iter_swap g p q) < weight w g"
proof -
  let ?h = "g[p := g ! q]"
  have 1: "weight w ?h + w p = weight w g"
    using weight_update[OF p, of w "g ! q"] pnz qz by simp
  have "q < length ?h" "?h ! q = 0" using q pq qz by simp_all
  then have 2: "weight w (?h[q := g ! p]) = weight w ?h + w q"
    using weight_update[of q ?h w "g ! p"] pnz by simp
  from 1 2 w show ?thesis by (simp add: iter_swap_def)
qed

lemma weight_merge:
  assumes p: "p < length g" and q: "q < length g" and pq: "p \<noteq> q"
    and pnz: "g ! p \<noteq> 0" and eq: "g ! q = g ! p" and w: "w q < w p"
  shows "weight w ((g[p := 0])[q := g ! q + 1]) < weight w g"
proof -
  let ?h = "g[p := 0]"
  have 1: "weight w ?h + w p = weight w g"
    using weight_update[OF p, of w 0] pnz by simp
  have "q < length ?h" "?h ! q \<noteq> 0" using q pq pnz eq by simp_all
  then have 2: "weight w (?h[q := g ! q + 1]) \<le> weight w ?h"
    using weight_update[of q ?h w "g ! q + 1"] by (simp split: if_splits)
  from 1 2 w show ?thesis by simp
qed

lemma move_helper_modified:
  assumes len: "length (grid s) = sz * sz"
  shows "case move_helper sz d s of (m, s') \<Rightarrow> (m \<longrightarrow> grid s' \<noteq> grid s) \<and> (\<not> m \<longrightarrow> s' = s)"
proof -
  define w :: "nat \<Rightarrow> nat" where "w = (\<lambda>p. if 0 < it_stride_of sz d then p else sz * sz - p)"
  have worder: "w q < w p"
    if "p < sz * sz" "q < sz * sz" "p \<noteq> q" "0 < it_stride_of sz d \<longrightarrow> q < p" "it_stride_of sz d < 0 \<longrightarrow> p < q"
    for p q
  proof (cases "0 < it_stride_of sz d")
    case True
    with that show ?thesis by (simp add: w_def)
  next
    case False
    have "sz \<noteq> 0" using that(1) by (cases sz) simp_all
    then have "it_stride_of sz d \<noteq> 0" by (simp add: it_stride_nonzero)
    with False have "it_stride_of sz d < 0" by simp
    with that False show ?thesis by (simp add: w_def)
  qed
  let ?I = "\<lambda>m t. weight w (grid t) \<le> weight w (grid s) \<and>
                  (m \<longrightarrow> weight w (grid t) < weight w (grid s)) \<and> (\<not> m \<longrightarrow> t = s)"
  have "case move_helper sz d s of (m', s') \<Rightarrow> ?I m' s' \<and> length (grid s') = sz * sz"
  proof (rule move_helper_rule[where I = ?I])
    show "length (grid s) = sz * sz" by (rule len)
    show "?I False s" by simp
  next
    fix m t p q
    assume I: "?I m t" and l: "length (grid t) = sz * sz" and p: "p < sz * sz" and q: "q < sz * sz"
      and pq: "p \<noteq> q" and ord: "0 < it_stride_of sz d \<longrightarrow> q < p" "it_stride_of sz d < 0 \<longrightarrow> p < q"
      and pnz: "grid t ! p \<noteq> 0" and qz: "grid t ! q = 0"
    have "weight w (iter_swap (grid t) p q) < weight w (grid t)"
      using weight_slide[of p "grid t" q w] p q l pq pnz qz worder[OF p q pq ord] by simp
    with I show "?I True (t\<lparr>grid := iter_swap (grid t) p q\<rparr>)" by simp
  next
    fix m t p q
    assume I: "?I m t" and l: "length (grid t) = sz * sz" and p: "p < sz * sz" and q: "q < sz * sz"
      and pq: "p \<noteq> q" and ord: "0 < it_stride_of sz d \<longrightarrow> q < p" "it_stride_of sz d < 0 \<longrightarrow> p < q"
      and pnz: "grid t ! p \<noteq> 0" and eq: "grid t ! q = grid t ! p"
    have "weight w ((grid t)[p := 0, q := grid t ! q + 1]) < weight w (grid t)"
      using weight_merge[of p "grid t" q w] p q l pq pnz eq worder[OF p q pq ord] by simp
    with I show "?I True (t\<lparr>grid := (grid t)[p := 0, q := grid t ! q + 1],
                  empty_cells_count := empty_cells_count t + 1,
                  score := score t + push_bit (unat (grid t ! q) mod 32) 1\<rparr>)" by simp
  qed
  then show ?thesis by (auto split: prod.splits)
qed

text \<open>
  The pass does not touch the generator or the status, never lowers the count, and keeps it
  at or below the number of zero cells (a merge clears one cell and adds one to the count).
\<close>

lemma move_helper_count:
  assumes len: "length (grid s) = sz * sz" and N: "sz \<le> 255"
    and le: "unat (empty_cells_count s) \<le> zero_cells (grid s)"
  shows "case move_helper sz d s of
           (m, s1) \<Rightarrow>
             (prng s1 = prng s \<and> state s1 = state s \<and>
              unat (empty_cells_count s) \<le> unat (empty_cells_count s1) \<and>
              unat (empty_cells_count s1) \<le> zero_cells (grid s1)) \<and>
             length (grid s1) = sz * sz"
proof (rule move_helper_rule[where I = "\<lambda>m t. prng t = prng s \<and> state t = state s \<and>
              unat (empty_cells_count s) \<le> unat (empty_cells_count t) \<and>
              unat (empty_cells_count t) \<le> zero_cells (grid t)"])
  show "length (grid s) = sz * sz" by (rule len)
  show "prng s = prng s \<and> state s = state s \<and>
      unat (empty_cells_count s) \<le> unat (empty_cells_count s) \<and>
      unat (empty_cells_count s) \<le> zero_cells (grid s)" using le by simp
next
  fix m t p q
  assume I: "prng t = prng s \<and> state t = state s \<and>
              unat (empty_cells_count s) \<le> unat (empty_cells_count t) \<and>
              unat (empty_cells_count t) \<le> zero_cells (grid t)"
    and l: "length (grid t) = sz * sz" and p: "p < sz * sz" and q: "q < sz * sz"
  have "zero_cells (iter_swap (grid t) p q) = zero_cells (grid t)"
    using zero_cells_iter_swap[of p "grid t" q] p q l by simp
  with I show "prng (t\<lparr>grid := iter_swap (grid t) p q\<rparr>) = prng s \<and>
      state (t\<lparr>grid := iter_swap (grid t) p q\<rparr>) = state s \<and>
      unat (empty_cells_count s) \<le> unat (empty_cells_count (t\<lparr>grid := iter_swap (grid t) p q\<rparr>)) \<and>
      unat (empty_cells_count (t\<lparr>grid := iter_swap (grid t) p q\<rparr>))
        \<le> zero_cells (grid (t\<lparr>grid := iter_swap (grid t) p q\<rparr>))"
    by simp
next
  fix m t p q
  assume I: "prng t = prng s \<and> state t = state s \<and>
              unat (empty_cells_count s) \<le> unat (empty_cells_count t) \<and>
              unat (empty_cells_count t) \<le> zero_cells (grid t)"
    and l: "length (grid t) = sz * sz" and p: "p < sz * sz" and q: "q < sz * sz" and pq: "p \<noteq> q"
    and pnz: "grid t ! p \<noteq> 0" and eq: "grid t ! q = grid t ! p"
  let ?g' = "(grid t)[p := 0, q := grid t ! q + 1]"
  let ?t' = "t\<lparr>grid := ?g', empty_cells_count := empty_cells_count t + 1,
                  score := score t + push_bit (unat (grid t ! q) mod 32) 1\<rparr>"
  have pl: "p < length (grid t)" and ql: "q < length (grid t)" using p q l by simp_all
  have z1: "zero_cells ((grid t)[p := 0]) = zero_cells (grid t) + 1"
    using zero_cells_update[OF pl, of 0] pnz by simp
  have "q < length ((grid t)[p := 0])" "(grid t)[p := 0] ! q \<noteq> 0"
    using ql pq pnz eq by simp_all
  then have z2: "zero_cells ((grid t)[p := 0]) \<le> zero_cells ?g'"
    using zero_cells_update[of q "(grid t)[p := 0]" "grid t ! q + 1"] by (simp split: if_splits)
  have "sz * sz \<le> 255 * 255" using N by (intro mult_le_mono)
  moreover have "zero_cells (grid t) < length (grid t)" using zero_cells_lt[OF pl pnz] .
  ultimately have "unat (empty_cells_count t) < 65535" using I l by simp
  then have "unat (empty_cells_count t + 1) = unat (empty_cells_count t) + 1"
    by (rule unat_ec_suc)
  with I z1 z2 show "prng ?t' = prng s \<and> state ?t' = state s \<and>
      unat (empty_cells_count s) \<le> unat (empty_cells_count ?t') \<and>
      unat (empty_cells_count ?t') \<le> zero_cells (grid ?t')"
    by simp
qed

text \<open>
  C6: for an engine whose count of empty cells is not 0, if the pass leaves the board as it was
  then \<^verbatim>\<open>move\<close> returns the engine unchanged (no spawn, no generator call); if the pass
  changed the board then \<^verbatim>\<open>move\<close> is one \<^verbatim>\<open>spawn_new_number\<close> on the result of the pass,
  and when the count is the number of zero cells (side up to 255) that spawn returns: the
  engine returned is the result of the pass with one of its zero cells \<open>i\<close> set to a non-zero
  exponent \<open>v\<close>, the count lowered by one and the generator called twice.
\<close>

theorem move_spawns_iff_changed:
  assumes "length (grid s) = sz * sz" and "empty_cells_count s \<noteq> 0"
  shows "(grid (snd (move_helper sz d s)) = grid s \<longrightarrow> move sz d s = Inr s) \<and>
         (grid (snd (move_helper sz d s)) \<noteq> grid s \<longrightarrow>
            move sz d s = spawn_new_number (snd (move_helper sz d s)) \<and>
            (sz \<le> 255 \<and> unat (empty_cells_count s) = zero_cells (grid s) \<longrightarrow>
               (\<exists>i v. i < length (grid (snd (move_helper sz d s))) \<and>
                  grid (snd (move_helper sz d s)) ! i = 0 \<and> v \<noteq> 0 \<and>
                  move sz d s =
                    Inr ((snd (move_helper sz d s))
                          \<lparr>prng := Xorshift_call (Xorshift_call (prng s)),
                           grid := (grid (snd (move_helper sz d s)))[i := v],
                           empty_cells_count :=
                             empty_cells_count (snd (move_helper sz d s)) - 1\<rparr>))))"
proof -
  obtain m s1 where mh: "move_helper sz d s = (m, s1)" by (cases "move_helper sz d s")
  with move_helper_modified[OF assms(1), of d]
  have flag: "m \<longrightarrow> grid s1 \<noteq> grid s" "\<not> m \<longrightarrow> s1 = s" by simp_all
  have placed: "\<exists>i v. i < length (grid s1) \<and> grid s1 ! i = 0 \<and> v \<noteq> 0 \<and>
                  move sz d s =
                    Inr (s1\<lparr>prng := Xorshift_call (Xorshift_call (prng s)),
                           grid := (grid s1)[i := v],
                           empty_cells_count := empty_cells_count s1 - 1\<rparr>)"
    if ch: "grid s1 \<noteq> grid s" and N: "sz \<le> 255"
      and link: "unat (empty_cells_count s) = zero_cells (grid s)"
  proof -
    from ch flag(2) have m: m by auto
    from move_helper_count[OF assms(1) N, of d] link mh
    have pr: "prng s1 = prng s" and ge: "unat (empty_cells_count s) \<le> unat (empty_cells_count s1)"
      and le: "unat (empty_cells_count s1) \<le> zero_cells (grid s1)" by simp_all
    have "0 < unat (empty_cells_count s)" using assms(2) by (simp add: unat_gt_0)
    with ge have "unat (empty_cells_count s1) \<noteq> 0" by simp
    then have nz: "empty_cells_count s1 \<noteq> 0" by auto
    from spawn_new_number_places[OF nz le] obtain i where i: "i < length (grid s1)" "grid s1 ! i = 0"
      and r: "spawn_new_number s1 =
             Inr (s1\<lparr>prng := Xorshift_call (Xorshift_call (prng s1)),
                    grid := (grid s1)[i := spawn_value (Xorshift_call (Xorshift_call (prng s1)))],
                    empty_cells_count := empty_cells_count s1 - 1\<rparr>)" by blast
    have "move sz d s = spawn_new_number s1" using mh m assms(2) by (simp add: move_def)
    with r pr have "move sz d s =
        Inr (s1\<lparr>prng := Xorshift_call (Xorshift_call (prng s)),
               grid := (grid s1)[i := spawn_value (Xorshift_call (Xorshift_call (prng s)))],
               empty_cells_count := empty_cells_count s1 - 1\<rparr>)" by simp
    with i spawn_value_nonzero show ?thesis by blast
  qed
  have a: "grid s1 = grid s \<longrightarrow> move sz d s = Inr s"
    using flag mh assms(2) by (auto simp: move_def)
  have b: "grid s1 \<noteq> grid s \<longrightarrow> move sz d s = spawn_new_number s1"
    using flag mh assms(2) by (auto simp: move_def)
  from a b placed show ?thesis unfolding mh by simp
qed

theorem move_spawns_iff_changed_witness:
  "length (grid spawn_example) = 2 * 2 \<and> empty_cells_count spawn_example \<noteq> 0 \<and>
   (2::nat) \<le> 255 \<and> unat (empty_cells_count spawn_example) = zero_cells (grid spawn_example) \<and>
   grid (snd (move_helper 2 left spawn_example)) = grid spawn_example \<and>
   move 2 left spawn_example = Inr spawn_example \<and>
   grid (snd (move_helper 2 right spawn_example)) \<noteq> grid spawn_example \<and>
   (\<exists>i v. i < length (grid (snd (move_helper 2 right spawn_example))) \<and>
      grid (snd (move_helper 2 right spawn_example)) ! i = 0 \<and> v \<noteq> 0 \<and>
      move 2 right spawn_example =
        Inr ((snd (move_helper 2 right spawn_example))
              \<lparr>prng := Xorshift_call (Xorshift_call (prng spawn_example)),
               grid := (grid (snd (move_helper 2 right spawn_example)))[i := v],
               empty_cells_count :=
                 empty_cells_count (snd (move_helper 2 right spawn_example)) - 1\<rparr>))"
proof -
  have h1: "length (grid spawn_example) = 2 * 2" by (simp add: spawn_example_def)
  have h2: "empty_cells_count spawn_example \<noteq> 0" by (simp add: spawn_example_def)
  have h3: "(2::nat) \<le> 255" by simp
  have h4: "unat (empty_cells_count spawn_example) = zero_cells (grid spawn_example)"
    by (simp add: spawn_example_def zero_cells_def)
  have e1: "grid (snd (move_helper 2 left spawn_example)) = [1, 0, 3, 0]"
    unfolding spawn_example_def by code_simp
  have e2: "grid (snd (move_helper 2 right spawn_example)) = [0, 1, 0, 3]"
    unfolding spawn_example_def by code_simp
  have g: "grid spawn_example = [1, 0, 3, 0]" by (simp add: spawn_example_def)
  from e1 g have u: "grid (snd (move_helper 2 left spawn_example)) = grid spawn_example" by simp
  from e2 g have c: "grid (snd (move_helper 2 right spawn_example)) \<noteq> grid spawn_example" by simp
  from move_spawns_iff_changed[OF h1 h2, of left] move_spawns_iff_changed[OF h1 h2, of right]
    u c h1 h2 h3 h4
  show ?thesis by blast
qed

section \<open>The pass, line by line\<close>

lemma line_inv_init: "L0 \<noteq> [] \<Longrightarrow> line_inv L0 sc0 (Suc 0) 0 L0 sc0"
proof -
  assume "L0 \<noteq> []"
  then obtain x xs where "L0 = x # xs" by (cases L0) auto
  then show ?thesis by (simp add: line_inv_def)
qed

lemma drop_Suc_cong: "drop j L = drop j L0 \<Longrightarrow> drop (Suc j) L = drop (Suc j) L0"
proof -
  assume a: "drop j L = drop j L0"
  have "drop (Suc j) L = tl (drop j L)" "drop (Suc j) L0 = tl (drop j L0)"
    by (simp_all add: drop_Suc tl_drop)
  with a show ?thesis by simp
qed

lemma line_inv_nth:
  assumes "line_inv L0 sc0 j t L sc" "j < length L0"
  shows "L0 ! j = L ! j" and "drop j L0 = L ! j # drop (Suc j) L0"
proof -
  from assms have d: "drop j L = drop j L0" and len: "length L = length L0"
    by (simp_all add: line_inv_def)
  have "L ! j = drop j L ! 0" using assms(2) len by simp
  also have "\<dots> = L0 ! j" using d assms(2) by simp
  finally show a: "L0 ! j = L ! j" by simp
  show "drop j L0 = L ! j # drop (Suc j) L0"
    using Cons_nth_drop_Suc[OF assms(2)] a by simp
qed

text \<open>The five ways the loop body acts on a line, as steps of the invariant.\<close>

lemma line_inv_step:
  assumes len: "length L' = length L0" and tj: "t' < Suc j" and j: "j < length L0"
    and d: "drop (Suc j) L' = drop (Suc j) L0"
    and g: "\<forall>l. t' < l \<and> l < Suc j \<longrightarrow> L' ! l = 0"
    and m: "merge_tiles (filter (\<lambda>x. x \<noteq> 0) L0)
       = take t' L' @ merge_tiles (filter (\<lambda>x. x \<noteq> 0) (L' ! t' # drop (Suc j) L0))"
    and s: "sc0 + shift_gain (filter (\<lambda>x. x \<noteq> 0) L0)
       = sc' + shift_gain (filter (\<lambda>x. x \<noteq> 0) (L' ! t' # drop (Suc j) L0))"
  shows "line_inv L0 sc0 (Suc j) t' L' sc'"
  unfolding line_inv_def using assms by simp

lemma line_inv_skip:
  assumes inv: "line_inv L0 sc0 j t L sc" and j: "j < length L0" and z: "L ! j = 0"
  shows "line_inv L0 sc0 (Suc j) t L sc"
proof (rule line_inv_step[OF _ _ j])
  note n = line_inv_nth[OF inv j]
  from inv have len: "length L = length L0" and tj: "t < j" and d0: "drop j L = drop j L0"
    and gap: "\<forall>l. t < l \<and> l < j \<longrightarrow> L ! l = 0"
    and m: "merge_tiles (filter (\<lambda>x. x \<noteq> 0) L0)
       = take t L @ merge_tiles (filter (\<lambda>x. x \<noteq> 0) (L ! t # drop j L0))"
    and s: "sc0 + shift_gain (filter (\<lambda>x. x \<noteq> 0) L0)
       = sc + shift_gain (filter (\<lambda>x. x \<noteq> 0) (L ! t # drop j L0))"
    by (simp_all add: line_inv_def)
  show "length L = length L0" by (rule len)
  show "t < Suc j" using tj by simp
  show "drop (Suc j) L = drop (Suc j) L0" using d0 by (rule drop_Suc_cong)
  show "\<forall>l. t < l \<and> l < Suc j \<longrightarrow> L ! l = 0" using gap z by (auto simp: less_Suc_eq)
  show "merge_tiles (filter (\<lambda>x. x \<noteq> 0) L0)
       = take t L @ merge_tiles (filter (\<lambda>x. x \<noteq> 0) (L ! t # drop (Suc j) L0))"
    using m n(2) z by simp
  show "sc0 + shift_gain (filter (\<lambda>x. x \<noteq> 0) L0)
       = sc + shift_gain (filter (\<lambda>x. x \<noteq> 0) (L ! t # drop (Suc j) L0))"
    using s n(2) z by simp
qed

lemma line_inv_fill:
  assumes inv: "line_inv L0 sc0 j t L sc" and j: "j < length L0"
    and a: "L ! j \<noteq> 0" and c: "L ! t = 0"
  shows "line_inv L0 sc0 (Suc j) t (iter_swap L j t) sc"
proof (rule line_inv_step[OF _ _ j])
  note n = line_inv_nth[OF inv j]
  from inv have len: "length L = length L0" and tj: "t < j" and d0: "drop j L = drop j L0"
    and gap: "\<forall>l. t < l \<and> l < j \<longrightarrow> L ! l = 0"
    and m: "merge_tiles (filter (\<lambda>x. x \<noteq> 0) L0)
       = take t L @ merge_tiles (filter (\<lambda>x. x \<noteq> 0) (L ! t # drop j L0))"
    and s: "sc0 + shift_gain (filter (\<lambda>x. x \<noteq> 0) L0)
       = sc + shift_gain (filter (\<lambda>x. x \<noteq> 0) (L ! t # drop j L0))"
    by (simp_all add: line_inv_def)
  let ?L' = "iter_swap L j t"
  have L': "?L' = L[j := 0, t := L ! j]" using c by (simp add: iter_swap_def)
  show "length ?L' = length L0" using len by simp
  show "t < Suc j" using tj by simp
  have "drop (Suc j) ?L' = drop (Suc j) L" unfolding L' using tj by simp
  then show "drop (Suc j) ?L' = drop (Suc j) L0" using drop_Suc_cong[OF d0] by simp
  show "\<forall>l. t < l \<and> l < Suc j \<longrightarrow> ?L' ! l = 0"
    unfolding L' using gap tj j len by (auto simp: less_Suc_eq nth_list_update)
  have tk: "take t ?L' = take t L" unfolding L' using tj by simp
  have nt: "?L' ! t = L ! j" unfolding L' using tj j len by simp
  show "merge_tiles (filter (\<lambda>x. x \<noteq> 0) L0)
       = take t ?L' @ merge_tiles (filter (\<lambda>x. x \<noteq> 0) (?L' ! t # drop (Suc j) L0))"
    unfolding tk nt using m n(2) a c by simp
  show "sc0 + shift_gain (filter (\<lambda>x. x \<noteq> 0) L0)
       = sc + shift_gain (filter (\<lambda>x. x \<noteq> 0) (?L' ! t # drop (Suc j) L0))"
    unfolding nt using s n(2) a c by simp
qed

lemma line_inv_merge:
  assumes inv: "line_inv L0 sc0 j t L sc" and j: "j < length L0"
    and a: "L ! j \<noteq> 0" and c: "L ! t = L ! j"
  shows "line_inv L0 sc0 (Suc j) (Suc t) (L[j := 0, t := L ! t + 1]) (sc + 2 ^ (unat (L ! t) mod 32))"
proof (rule line_inv_step[OF _ _ j])
  note n = line_inv_nth[OF inv j]
  from inv have len: "length L = length L0" and tj: "t < j" and d0: "drop j L = drop j L0"
    and gap: "\<forall>l. t < l \<and> l < j \<longrightarrow> L ! l = 0"
    and m: "merge_tiles (filter (\<lambda>x. x \<noteq> 0) L0)
       = take t L @ merge_tiles (filter (\<lambda>x. x \<noteq> 0) (L ! t # drop j L0))"
    and s: "sc0 + shift_gain (filter (\<lambda>x. x \<noteq> 0) L0)
       = sc + shift_gain (filter (\<lambda>x. x \<noteq> 0) (L ! t # drop j L0))"
    by (simp_all add: line_inv_def)
  let ?L' = "L[j := 0, t := L ! t + 1]"
  show "length ?L' = length L0" using len by simp
  show "Suc t < Suc j" using tj by simp
  have "drop (Suc j) ?L' = drop (Suc j) L" using tj by simp
  then show "drop (Suc j) ?L' = drop (Suc j) L0" using drop_Suc_cong[OF d0] by simp
  show "\<forall>l. Suc t < l \<and> l < Suc j \<longrightarrow> ?L' ! l = 0"
    using gap tj j len by (auto simp: less_Suc_eq nth_list_update)
  have t1: "?L' ! Suc t = 0"
    using gap tj j len by (cases "Suc t = j") (simp_all add: nth_list_update)
  have "take (Suc t) ?L' = take t ?L' @ [?L' ! t]"
    using tj j len by (intro take_Suc_conv_app_nth) simp
  also have "take t ?L' = take t L" using tj by simp
  also have "?L' ! t = L ! t + 1" using tj j len by simp
  finally have tk: "take (Suc t) ?L' = take t L @ [L ! t + 1]" .
  show "merge_tiles (filter (\<lambda>x. x \<noteq> 0) L0)
       = take (Suc t) ?L' @ merge_tiles (filter (\<lambda>x. x \<noteq> 0) (?L' ! Suc t # drop (Suc j) L0))"
    unfolding tk t1 using m n(2) a c by simp
  show "sc0 + shift_gain (filter (\<lambda>x. x \<noteq> 0) L0)
       = sc + 2 ^ (unat (L ! t) mod 32) + shift_gain (filter (\<lambda>x. x \<noteq> 0) (?L' ! Suc t # drop (Suc j) L0))"
    unfolding t1 using s n(2) a c by simp
qed

lemma line_inv_keep:
  assumes inv: "line_inv L0 sc0 j t L sc" and j: "j < length L0" and tj: "Suc t = j"
    and a: "L ! j \<noteq> 0" and c: "L ! t \<noteq> 0" and ne: "L ! j \<noteq> L ! t"
  shows "line_inv L0 sc0 (Suc j) (Suc t) L sc"
proof (rule line_inv_step[OF _ _ j])
  note n = line_inv_nth[OF inv j]
  from inv have len: "length L = length L0" and d0: "drop j L = drop j L0"
    and m: "merge_tiles (filter (\<lambda>x. x \<noteq> 0) L0)
       = take t L @ merge_tiles (filter (\<lambda>x. x \<noteq> 0) (L ! t # drop j L0))"
    and s: "sc0 + shift_gain (filter (\<lambda>x. x \<noteq> 0) L0)
       = sc + shift_gain (filter (\<lambda>x. x \<noteq> 0) (L ! t # drop j L0))"
    by (simp_all add: line_inv_def)
  show "length L = length L0" by (rule len)
  show "Suc t < Suc j" using tj by simp
  show "drop (Suc j) L = drop (Suc j) L0" using d0 by (rule drop_Suc_cong)
  show "\<forall>l. Suc t < l \<and> l < Suc j \<longrightarrow> L ! l = 0" using tj by auto
  have tk: "take (Suc t) L = take t L @ [L ! t]"
    using tj j len by (intro take_Suc_conv_app_nth) simp
  have t1: "L ! Suc t = L ! j" using tj by simp
  show "merge_tiles (filter (\<lambda>x. x \<noteq> 0) L0)
       = take (Suc t) L @ merge_tiles (filter (\<lambda>x. x \<noteq> 0) (L ! Suc t # drop (Suc j) L0))"
    unfolding tk t1 using m n(2) a c ne by simp
  show "sc0 + shift_gain (filter (\<lambda>x. x \<noteq> 0) L0)
       = sc + shift_gain (filter (\<lambda>x. x \<noteq> 0) (L ! Suc t # drop (Suc j) L0))"
    unfolding t1 using s n(2) a c ne by simp
qed

lemma line_inv_close:
  assumes inv: "line_inv L0 sc0 j t L sc" and j: "j < length L0" and tj: "Suc t < j"
    and a: "L ! j \<noteq> 0" and c: "L ! t \<noteq> 0" and ne: "L ! j \<noteq> L ! t"
  shows "line_inv L0 sc0 (Suc j) (Suc t) (iter_swap L j (Suc t)) sc"
proof (rule line_inv_step[OF _ _ j])
  note n = line_inv_nth[OF inv j]
  from inv have len: "length L = length L0" and d0: "drop j L = drop j L0"
    and gap: "\<forall>l. t < l \<and> l < j \<longrightarrow> L ! l = 0"
    and m: "merge_tiles (filter (\<lambda>x. x \<noteq> 0) L0)
       = take t L @ merge_tiles (filter (\<lambda>x. x \<noteq> 0) (L ! t # drop j L0))"
    and s: "sc0 + shift_gain (filter (\<lambda>x. x \<noteq> 0) L0)
       = sc + shift_gain (filter (\<lambda>x. x \<noteq> 0) (L ! t # drop j L0))"
    by (simp_all add: line_inv_def)
  have z: "L ! Suc t = 0" using gap tj by simp
  let ?L' = "iter_swap L j (Suc t)"
  have L': "?L' = L[j := 0, Suc t := L ! j]" using z by (simp add: iter_swap_def)
  show "length ?L' = length L0" using len by simp
  show "Suc t < Suc j" using tj by simp
  have "drop (Suc j) ?L' = drop (Suc j) L" unfolding L' using tj by simp
  then show "drop (Suc j) ?L' = drop (Suc j) L0" using drop_Suc_cong[OF d0] by simp
  show "\<forall>l. Suc t < l \<and> l < Suc j \<longrightarrow> ?L' ! l = 0"
    unfolding L' using gap tj j len by (auto simp: less_Suc_eq nth_list_update)
  have t1: "?L' ! Suc t = L ! j" unfolding L' using tj j len by simp
  have "take (Suc t) ?L' = take t ?L' @ [?L' ! t]"
    using tj j len by (intro take_Suc_conv_app_nth) simp
  also have "take t ?L' = take t L" unfolding L' using tj by simp
  also have "?L' ! t = L ! t" unfolding L' using tj j len by simp
  finally have tk: "take (Suc t) ?L' = take t L @ [L ! t]" .
  show "merge_tiles (filter (\<lambda>x. x \<noteq> 0) L0)
       = take (Suc t) ?L' @ merge_tiles (filter (\<lambda>x. x \<noteq> 0) (?L' ! Suc t # drop (Suc j) L0))"
    unfolding tk t1 using m n(2) a c ne by simp
  show "sc0 + shift_gain (filter (\<lambda>x. x \<noteq> 0) L0)
       = sc + shift_gain (filter (\<lambda>x. x \<noteq> 0) (?L' ! Suc t # drop (Suc j) L0))"
    unfolding t1 using s n(2) a c ne by simp
qed

lemma line_inv_final:
  assumes inv: "line_inv L0 sc0 (length L0) t L sc"
  shows "L = slide_line L0" and "sc = sc0 + shift_gain (filter (\<lambda>x. x \<noteq> 0) L0)"
proof -
  from inv have len: "length L = length L0" and t: "t < length L0"
    and gap: "\<forall>l. t < l \<and> l < length L0 \<longrightarrow> L ! l = 0"
    and m: "merge_tiles (filter (\<lambda>x. x \<noteq> 0) L0)
       = take t L @ merge_tiles (filter (\<lambda>x. x \<noteq> 0) [L ! t])"
    and s: "sc0 + shift_gain (filter (\<lambda>x. x \<noteq> 0) L0)
       = sc + shift_gain (filter (\<lambda>x. x \<noteq> 0) [L ! t])"
    by (simp_all add: line_inv_def)
  from s show "sc = sc0 + shift_gain (filter (\<lambda>x. x \<noteq> 0) L0)" by simp
  have rest: "drop (Suc t) L = replicate (length L0 - Suc t) 0"
    using gap len by (intro nth_equalityI) simp_all
  have "L = take t L @ drop t L" by simp
  also have "drop t L = L ! t # drop (Suc t) L" using t len by (simp add: Cons_nth_drop_Suc)
  finally have split: "L = take t L @ L ! t # replicate (length L0 - Suc t) 0" using rest by simp
  have lt: "length (take t L) = t" using t len by simp
  show "L = slide_line L0"
  proof (cases "L ! t = 0")
    case True
    with m have mt: "merge_tiles (filter (\<lambda>x. x \<noteq> 0) L0) = take t L" by simp
    have "replicate (length L0 - t) (0::8 word) = L ! t # replicate (length L0 - Suc t) 0"
      using True t by (cases "length L0 - t") simp_all
    then have "slide_line L0 = take t L @ L ! t # replicate (length L0 - Suc t) 0"
      using lt by (simp add: slide_line_def mt Let_def)
    with split show ?thesis by simp
  next
    case False
    with m have mt: "merge_tiles (filter (\<lambda>x. x \<noteq> 0) L0) = take t L @ [L ! t]" by simp
    have "slide_line L0 = (take t L @ [L ! t]) @ replicate (length L0 - Suc t) 0"
      using lt by (simp add: slide_line_def mt Let_def)
    with split show ?thesis by simp
  qed
qed

lemma length_line_at [simp]: "length (line_at sz b st g) = sz"
  by (simp add: line_at_def)

lemma line_at_nth: "k < sz \<Longrightarrow> line_at sz b st g ! k = g ! nat (b + int k * st)"
  by (simp add: line_at_def)

lemma line_at_update:
  fixes st b :: int
  assumes st: "st \<noteq> 0"
    and rng: "\<And>k. k < sz \<Longrightarrow> 0 \<le> b + int k * st \<and> b + int k * st < int (length g)"
    and t: "t < sz"
  shows "line_at sz b st (g[nat (b + int t * st) := v]) = (line_at sz b st g)[t := v]"
proof (rule nth_equalityI)
  show "length (line_at sz b st (g[nat (b + int t * st) := v])) = length ((line_at sz b st g)[t := v])"
    by simp
next
  fix k assume "k < length (line_at sz b st (g[nat (b + int t * st) := v]))"
  then have k: "k < sz" by simp
  have tl: "nat (b + int t * st) < length g" using rng[OF t] by linarith
  show "line_at sz b st (g[nat (b + int t * st) := v]) ! k = (line_at sz b st g)[t := v] ! k"
  proof (cases "k = t")
    case True
    then show ?thesis using k tl by (simp add: line_at_nth)
  next
    case False
    then have "nat (b + int t * st) \<noteq> nat (b + int k * st)"
      using cell_distinct[OF st, of b t k] rng[OF t] rng[OF k] by simp
    then show ?thesis using k False by (simp add: line_at_nth)
  qed
qed

lemma line_at_iter_swap:
  fixes st b :: int
  assumes st: "st \<noteq> 0"
    and rng: "\<And>k. k < sz \<Longrightarrow> 0 \<le> b + int k * st \<and> b + int k * st < int (length g)"
    and j: "j < sz" and t: "t < sz"
  shows "line_at sz b st (iter_swap g (nat (b + int j * st)) (nat (b + int t * st)))
           = iter_swap (line_at sz b st g) j t"
proof -
  let ?p = "nat (b + int j * st)" and ?q = "nat (b + int t * st)"
  have rng': "\<And>k. k < sz \<Longrightarrow> 0 \<le> b + int k * st \<and> b + int k * st < int (length (g[?p := g ! ?q]))"
    using rng by simp
  have "line_at sz b st ((g[?p := g ! ?q])[?q := g ! ?p])
      = (line_at sz b st (g[?p := g ! ?q]))[t := g ! ?p]"
    using line_at_update[OF st rng' t] by simp
  also have "line_at sz b st (g[?p := g ! ?q]) = (line_at sz b st g)[j := g ! ?q]"
    using line_at_update[OF st rng j] by simp
  finally show ?thesis using j t by (simp add: iter_swap_def line_at_nth)
qed

lemma iter_swap_nth_other: "r \<noteq> a \<Longrightarrow> r \<noteq> b \<Longrightarrow> iter_swap g a b ! r = g ! r"
  by (simp add: iter_swap_def)

lemma outside_iter_swap:
  assumes "p \<in> C" "q \<in> C" "\<forall>r. r \<notin> C \<longrightarrow> g ! r = g0 ! r"
  shows "\<forall>r. r \<notin> C \<longrightarrow> iter_swap g p q ! r = g0 ! r"
proof (intro allI impI)
  fix r assume r: "r \<notin> C"
  with assms(1,2) have "r \<noteq> p" "r \<noteq> q" by auto
  then have "iter_swap g p q ! r = g ! r" by (rule iter_swap_nth_other)
  with assms(3) r show "iter_swap g p q ! r = g0 ! r" by simp
qed

lemma outside_update2:
  assumes "p \<in> C" "q \<in> C" "\<forall>r. r \<notin> C \<longrightarrow> g ! r = g0 ! r"
  shows "\<forall>r. r \<notin> C \<longrightarrow> g[p := v, q := w] ! r = g0 ! r"
proof (intro allI impI)
  fix r assume r: "r \<notin> C"
  with assms(1,2) have "r \<noteq> p" "r \<noteq> q" by auto
  then have "g[p := v, q := w] ! r = g ! r" by simp
  with assms(3) r show "g[p := v, q := w] ! r = g0 ! r" by simp
qed

lemma inner_loop_line:
  fixes st b :: int
  assumes st: "st \<noteq> 0"
    and rng: "\<And>k. k < sz \<Longrightarrow> 0 \<le> b + int k * st \<and> b + int k * st < int N"
    and sz: "1 \<le> sz" and len: "length (grid s) = N"
  shows "case inner_loop sz st 1 (b + st) b m s of
           (m', s') \<Rightarrow>
             line_at sz b st (grid s') = slide_line (line_at sz b st (grid s)) \<and>
             score s' = score s + shift_gain (filter (\<lambda>x. x \<noteq> 0) (line_at sz b st (grid s))) \<and>
             (\<forall>r. r \<notin> (\<lambda>k. nat (b + int k * st)) ` {..<sz} \<longrightarrow> grid s' ! r = grid s ! r) \<and>
             length (grid s') = N"
proof -
  define L0 where "L0 = line_at sz b st (grid s)"
  define C where "C = (\<lambda>k. nat (b + int k * st)) ` {..<sz}"
  define I where "I = (\<lambda>(j::nat) (t::nat) (m::bool) (s'::Grid).
      line_inv L0 (score s) j t (line_at sz b st (grid s')) (score s') \<and>
      (\<forall>r. r \<notin> C \<longrightarrow> grid s' ! r = grid s ! r))"
  have lenL0: "length L0 = sz" by (simp add: L0_def)
  have inC: "\<And>k. k < sz \<Longrightarrow> nat (b + int k * st) \<in> C" by (auto simp: C_def)
  have "L0 \<noteq> []" using lenL0 sz by auto
  then have I0: "I 1 0 m s"
    using line_inv_init[of L0 "score s"] by (simp add: I_def L0_def)
  have gap: "\<forall>l. 0 < l \<and> l < 1 \<longrightarrow> grid s ! nat (b + int l * st) = 0" by simp
  have one: "(0::nat) < 1" by simp
  have "case inner_loop sz st 1 (b + int 1 * st) (b + int 0 * st) m s of
            (m', s') \<Rightarrow> (\<exists>t'. I sz t' m' s') \<and> length (grid s') = N"
  proof (rule inner_loop_steps[where I = I, OF st rng _ _ _ _ _ one sz len gap I0])
    fix j t m' s'
    assume a: "I j t m' s'" "length (grid s') = N" "t < j" "j < sz"
      "grid s' ! nat (b + int j * st) = 0"
    then have "line_at sz b st (grid s') ! j = 0" by (simp add: line_at_nth)
    with a show "I (j + 1) t m' s'"
      using line_inv_skip[of L0 "score s" j t "line_at sz b st (grid s')" "score s'"] lenL0
      by (simp add: I_def)
  next
    fix j t m' s'
    assume a: "I j t m' s'" "length (grid s') = N" "t < j" "j < sz"
      "grid s' ! nat (b + int j * st) \<noteq> 0" "grid s' ! nat (b + int t * st) = 0"
    let ?p = "nat (b + int j * st)" and ?q = "nat (b + int t * st)"
    from a have t: "t < sz" by simp
    have r: "\<And>k. k < sz \<Longrightarrow> 0 \<le> b + int k * st \<and> b + int k * st < int (length (grid s'))"
      using rng a(2) by simp
    have L: "line_at sz b st (iter_swap (grid s') ?p ?q) = iter_swap (line_at sz b st (grid s')) j t"
      using line_at_iter_swap[OF st r a(4) t] .
    have "line_at sz b st (grid s') ! j \<noteq> 0" "line_at sz b st (grid s') ! t = 0"
      using a t by (simp_all add: line_at_nth)
    then have "line_inv L0 (score s) (Suc j) t (iter_swap (line_at sz b st (grid s')) j t) (score s')"
      using line_inv_fill[of L0 "score s" j t "line_at sz b st (grid s')" "score s'"] a lenL0
      by (simp add: I_def)
    moreover have "\<forall>r. r \<notin> C \<longrightarrow> iter_swap (grid s') ?p ?q ! r = grid s ! r"
      using a(1) by (intro outside_iter_swap inC[OF a(4)] inC[OF t]) (simp add: I_def)
    ultimately show "I (j + 1) t True (s'\<lparr>grid := iter_swap (grid s') ?p ?q\<rparr>)"
      by (simp add: I_def L)
  next
    fix j t m' s'
    assume a: "I j t m' s'" "length (grid s') = N" "t < j" "j < sz"
      "grid s' ! nat (b + int j * st) \<noteq> 0"
      "grid s' ! nat (b + int t * st) = grid s' ! nat (b + int j * st)"
    let ?p = "nat (b + int j * st)" and ?q = "nat (b + int t * st)"
    let ?L = "line_at sz b st (grid s')"
    from a have t: "t < sz" by simp
    have r: "\<And>k. k < sz \<Longrightarrow> 0 \<le> b + int k * st \<and> b + int k * st < int (length (grid s'))"
      using rng a(2) by simp
    have r': "\<And>k. k < sz \<Longrightarrow> 0 \<le> b + int k * st \<and> b + int k * st < int (length ((grid s')[?p := 0]))"
      using rng a(2) by simp
    have L: "line_at sz b st ((grid s')[?p := 0, ?q := grid s' ! ?q + 1]) = ?L[j := 0, t := ?L ! t + 1]"
      using line_at_update[OF st r' t] line_at_update[OF st r a(4)] t by (simp add: line_at_nth)
    have "?L ! j \<noteq> 0" "?L ! t = ?L ! j"
      using a t by (simp_all add: line_at_nth)
    then have "line_inv L0 (score s) (Suc j) (Suc t) (?L[j := 0, t := ?L ! t + 1])
        (score s' + 2 ^ (unat (?L ! t) mod 32))"
      using line_inv_merge[of L0 "score s" j t ?L "score s'"] a lenL0
      by (simp add: I_def)
    moreover have "(2::32 word) ^ (unat (?L ! t) mod 32) = push_bit (unat (grid s' ! ?q) mod 32) 1"
      using t by (simp add: line_at_nth push_bit_of_1)
    moreover have "\<forall>r. r \<notin> C \<longrightarrow> (grid s')[?p := 0, ?q := grid s' ! ?q + 1] ! r = grid s ! r"
      using a(1) by (intro outside_update2 inC[OF a(4)] inC[OF t]) (simp add: I_def)
    ultimately show "I (j + 1) (t + 1) True
          (s'\<lparr>grid := ((grid s')[?p := 0])[?q := grid s' ! ?q + 1],
             empty_cells_count := empty_cells_count s' + 1,
             score := score s' + push_bit (unat (grid s' ! ?q) mod 32) 1\<rparr>)"
      by (simp add: I_def L)
  next
    fix j t m' s'
    assume a: "I j t m' s'" "length (grid s') = N" "t + 1 = j" "j < sz"
      "grid s' ! nat (b + int j * st) \<noteq> 0" "grid s' ! nat (b + int t * st) \<noteq> 0"
      "grid s' ! nat (b + int j * st) \<noteq> grid s' ! nat (b + int t * st)"
    let ?L = "line_at sz b st (grid s')"
    from a have t: "t < sz" by simp
    have "?L ! j \<noteq> 0" "?L ! t \<noteq> 0" "?L ! j \<noteq> ?L ! t"
      using a(4-7) t by (simp_all add: line_at_nth)
    then show "I (j + 1) (t + 1) m' s'"
      using line_inv_keep[of L0 "score s" j t ?L "score s'"] a(1,3,4) lenL0
      by (simp add: I_def)
  next
    fix j t m' s'
    assume a: "I j t m' s'" "length (grid s') = N" "t + 1 < j" "j < sz"
      "grid s' ! nat (b + int j * st) \<noteq> 0" "grid s' ! nat (b + int t * st) \<noteq> 0"
      "grid s' ! nat (b + int j * st) \<noteq> grid s' ! nat (b + int t * st)"
      "grid s' ! nat (b + int (t + 1) * st) = 0"
    let ?p = "nat (b + int j * st)" and ?q' = "nat (b + int (t + 1) * st)"
    let ?L = "line_at sz b st (grid s')"
    from a have t: "t < sz" and t1: "t + 1 < sz" by simp_all
    have r: "\<And>k. k < sz \<Longrightarrow> 0 \<le> b + int k * st \<and> b + int k * st < int (length (grid s'))"
      using rng a(2) by simp
    have L: "line_at sz b st (iter_swap (grid s') ?p ?q') = iter_swap ?L j (t + 1)"
      using line_at_iter_swap[OF st r a(4) t1] .
    have "?L ! j \<noteq> 0" "?L ! t \<noteq> 0" "?L ! j \<noteq> ?L ! t"
      using a(4-7) t by (simp_all add: line_at_nth)
    then have "line_inv L0 (score s) (Suc j) (Suc t) (iter_swap ?L j (Suc t)) (score s')"
      using line_inv_close[of L0 "score s" j t ?L "score s'"] a(1,3,4) lenL0
      by (simp add: I_def)
    moreover have "\<forall>r. r \<notin> C \<longrightarrow> iter_swap (grid s') ?p ?q' ! r = grid s ! r"
      using a(1) by (intro outside_iter_swap inC[OF a(4)] inC[OF t1]) (simp add: I_def)
    ultimately show "I (j + 1) (t + 1) True (s'\<lparr>grid := iter_swap (grid s') ?p ?q'\<rparr>)"
      using L by (simp add: I_def)
  qed
  then obtain m' s' where res: "inner_loop sz st 1 (b + st) b m s = (m', s')"
    and fin: "\<exists>t'. I sz t' m' s'" and l': "length (grid s') = N"
    by (cases "inner_loop sz st 1 (b + st) b m s") auto
  from fin obtain t' where
    li: "line_inv L0 (score s) (length L0) t' (line_at sz b st (grid s')) (score s')"
    and o: "\<forall>r. r \<notin> C \<longrightarrow> grid s' ! r = grid s ! r"
    using lenL0 by (auto simp: I_def)
  from line_inv_final[OF li] o l' show ?thesis
    unfolding res by (simp add: L0_def C_def)
qed

lemma grid_index_inj:
  assumes "a < n" "a' < n" "int a + int c * int n = int a' + int c' * int n"
  shows "a = a' \<and> c = c'"
proof -
  from assms(3) have "int (a + c * n) = int (a' + c' * n)" by simp
  then have e: "a + c * n = a' + c' * n" by (simp only: of_nat_eq_iff)
  then have "(a + c * n) mod n = (a' + c' * n) mod n" by simp
  with assms(1,2) have a: "a = a'" by simp
  with e have "c * n = c' * n" by simp
  with assms(1) have "c = c'" by simp
  with a show ?thesis by simp
qed

lemma line_cell_inj:
  assumes "i < sz" "i' < sz" "k < sz" "k' < sz"
    and "top_start_of sz d + int i * top_stride_of sz d + int k * it_stride_of sz d
       = top_start_of sz d + int i' * top_stride_of sz d + int k' * it_stride_of sz d"
  shows "i = i' \<and> k = k'"
proof (cases d)
  case up
  with assms(5) have "int i + int k * int sz = int i' + int k' * int sz" by simp
  from grid_index_inj[OF assms(1,2) this] show ?thesis .
next
  case down
  with assms(5) have "int i + int k * int sz = int i' + int k' * int sz" by simp
  from grid_index_inj[OF assms(1,2) this] show ?thesis .
next
  case left
  with assms(5) have "int k + int i * int sz = int k' + int i' * int sz" by simp
  from grid_index_inj[OF assms(3,4) this] show ?thesis by simp
next
  case right
  with assms(5) have "int k + int i * int sz = int k' + int i' * int sz" by simp
  from grid_index_inj[OF assms(3,4) this] show ?thesis by simp
qed

lemma line_cells_unchanged:
  assumes i: "i < sz" and i': "i' < sz" and ne: "i' \<noteq> i"
    and o: "\<forall>r. r \<notin> (\<lambda>k. nat (top_start_of sz d + int i * top_stride_of sz d + int k * it_stride_of sz d)) ` {..<sz}
              \<longrightarrow> g' ! r = g ! r"
  shows "line_cells sz d i' g' = line_cells sz d i' g"
proof -
  have "g' ! nat (top_start_of sz d + int i' * top_stride_of sz d + int k * it_stride_of sz d)
      = g ! nat (top_start_of sz d + int i' * top_stride_of sz d + int k * it_stride_of sz d)"
    if k: "k < sz" for k
  proof -
    have "nat (top_start_of sz d + int i' * top_stride_of sz d + int k * it_stride_of sz d)
        \<notin> (\<lambda>k. nat (top_start_of sz d + int i * top_stride_of sz d + int k * it_stride_of sz d)) ` {..<sz}"
    proof
      assume "nat (top_start_of sz d + int i' * top_stride_of sz d + int k * it_stride_of sz d)
        \<in> (\<lambda>k. nat (top_start_of sz d + int i * top_stride_of sz d + int k * it_stride_of sz d)) ` {..<sz}"
      then obtain k' where k': "k' < sz" and
        e: "nat (top_start_of sz d + int i' * top_stride_of sz d + int k * it_stride_of sz d)
          = nat (top_start_of sz d + int i * top_stride_of sz d + int k' * it_stride_of sz d)"
        by auto
      from line_cells_in_range[OF i' k, of d] line_cells_in_range[OF i k', of d] e
      have "top_start_of sz d + int i' * top_stride_of sz d + int k * it_stride_of sz d
          = top_start_of sz d + int i * top_stride_of sz d + int k' * it_stride_of sz d"
        by linarith
      from line_cell_inj[OF i' i k k' this] ne show False by simp
    qed
    with o show ?thesis by blast
  qed
  then show ?thesis by (simp add: line_cells_def line_at_def)
qed

lemma outer_loop_lines:
  assumes len0: "length g0 = sz * sz"
  shows "i \<le> sz \<Longrightarrow> length (grid t) = sz * sz \<Longrightarrow>
         (\<forall>i'<i. line_cells sz d i' (grid t) = slide_line (line_cells sz d i' g0)) \<Longrightarrow>
         (\<forall>i'. i \<le> i' \<and> i' < sz \<longrightarrow> line_cells sz d i' (grid t) = line_cells sz d i' g0) \<Longrightarrow>
         score t = sc0 + (\<Sum>i'<i. shift_gain (filter (\<lambda>x. x \<noteq> 0) (line_cells sz d i' g0))) \<Longrightarrow>
         (case outer_loop sz (top_start_of sz d) (top_stride_of sz d) (it_stride_of sz d) i
                 (top_start_of sz d + int i * top_stride_of sz d) m t of
            (m', t') \<Rightarrow>
              length (grid t') = sz * sz \<and>
              (\<forall>i' < sz. line_cells sz d i' (grid t') = slide_line (line_cells sz d i' g0)) \<and>
              score t' = sc0 + (\<Sum>i' < sz. shift_gain (filter (\<lambda>x. x \<noteq> 0) (line_cells sz d i' g0))))"
proof (induction "sz - i" arbitrary: i m t)
  case 0
  then have "i = sz" by simp
  with 0 show ?case by (subst outer_loop.simps) simp
next
  case (Suc n)
  then have isz: "i < sz" by simp
  then have sz1: "1 \<le> sz" and szpos: "0 < sz" by simp_all
  let ?b = "top_start_of sz d + int i * top_stride_of sz d"
  let ?st = "it_stride_of sz d"
  have st: "?st \<noteq> 0" using szpos by (rule it_stride_nonzero)
  have rng: "\<And>k. k < sz \<Longrightarrow> 0 \<le> ?b + int k * ?st \<and> ?b + int k * ?st < int (sz * sz)"
    using line_cells_in_range[OF isz] .
  obtain m' t' where res: "inner_loop sz ?st 1 (?b + ?st) ?b m t = (m', t')"
    by (cases "inner_loop sz ?st 1 (?b + ?st) ?b m t")
  from inner_loop_line[OF st rng sz1 Suc.prems(2), of m] res
  have line: "line_at sz ?b ?st (grid t') = slide_line (line_at sz ?b ?st (grid t))"
    and sc: "score t' = score t + shift_gain (filter (\<lambda>x. x \<noteq> 0) (line_at sz ?b ?st (grid t)))"
    and o: "\<forall>r. r \<notin> (\<lambda>k. nat (?b + int k * ?st)) ` {..<sz} \<longrightarrow> grid t' ! r = grid t ! r"
    and len': "length (grid t') = sz * sz"
    by simp_all
  have cur: "line_cells sz d i (grid t) = line_cells sz d i g0" using Suc.prems(4) isz by simp
  have done_i: "line_cells sz d i (grid t') = slide_line (line_cells sz d i g0)"
    using line cur by (simp add: line_cells_def)
  have others: "\<And>i'. i' < sz \<Longrightarrow> i' \<noteq> i \<Longrightarrow> line_cells sz d i' (grid t') = line_cells sz d i' (grid t)"
    using line_cells_unchanged[OF isz _ _ o] by blast
  have A: "\<forall>i'<i + 1. line_cells sz d i' (grid t') = slide_line (line_cells sz d i' g0)"
  proof (intro allI impI)
    fix i' assume "i' < i + 1"
    then consider "i' = i" | "i' < i" by linarith
    then show "line_cells sz d i' (grid t') = slide_line (line_cells sz d i' g0)"
    proof cases
      case 1
      then show ?thesis using done_i by simp
    next
      case 2
      then have "line_cells sz d i' (grid t') = line_cells sz d i' (grid t)"
        using others isz by simp
      with Suc.prems(3) 2 show ?thesis by simp
    qed
  qed
  have B: "\<forall>i'. i + 1 \<le> i' \<and> i' < sz \<longrightarrow> line_cells sz d i' (grid t') = line_cells sz d i' g0"
  proof (intro allI impI)
    fix i' assume a: "i + 1 \<le> i' \<and> i' < sz"
    then have "line_cells sz d i' (grid t') = line_cells sz d i' (grid t)" using others by simp
    with Suc.prems(4) a show "line_cells sz d i' (grid t') = line_cells sz d i' g0" by simp
  qed
  have C: "score t' = sc0 + (\<Sum>i'<i + 1. shift_gain (filter (\<lambda>x. x \<noteq> 0) (line_cells sz d i' g0)))"
    using sc Suc.prems(5) cur by (simp add: line_cells_def)
  have n: "n = sz - (i + 1)" using Suc.hyps(2) by simp
  have i1: "i + 1 \<le> sz" using isz by simp
  have unf: "outer_loop sz (top_start_of sz d) (top_stride_of sz d) ?st i ?b m t
      = outer_loop sz (top_start_of sz d) (top_stride_of sz d) ?st (i + 1)
          (top_start_of sz d + int (i + 1) * top_stride_of sz d) m' t'"
    using isz res by (subst outer_loop.simps) simp
  from Suc.hyps(1)[OF n i1 len' A B C] show ?case unfolding unf .
qed

text \<open>
  The whole pass: every line of the board, read from the leading edge, becomes
  \<^const>\<open>slide_line\<close> of what it was, and the score grows by the \<^const>\<open>shift_gain\<close> of the
  lines. No bound on the exponents is needed: where \<^verbatim>\<open>(*top)++\<close> wraps, so does \<open>x + 1\<close> in
  \<^const>\<open>merge_tiles\<close>.
\<close>

lemma move_helper_lines:
  assumes "length (grid s) = sz * sz"
  shows "length (grid (snd (move_helper sz d s))) = sz * sz \<and>
         (\<forall>i < sz. line_cells sz d i (grid (snd (move_helper sz d s)))
                   = slide_line (line_cells sz d i (grid s))) \<and>
         score (snd (move_helper sz d s))
           = score s + (\<Sum>i < sz. shift_gain (filter (\<lambda>x. x \<noteq> 0) (line_cells sz d i (grid s))))"
proof -
  have "case outer_loop sz (top_start_of sz d) (top_stride_of sz d) (it_stride_of sz d) 0
                 (top_start_of sz d + int 0 * top_stride_of sz d) False s of
            (m', t') \<Rightarrow>
              length (grid t') = sz * sz \<and>
              (\<forall>i' < sz. line_cells sz d i' (grid t') = slide_line (line_cells sz d i' (grid s))) \<and>
              score t' = score s + (\<Sum>i' < sz. shift_gain (filter (\<lambda>x. x \<noteq> 0) (line_cells sz d i' (grid s))))"
    by (rule outer_loop_lines[OF assms]) (simp_all add: assms)
  then show ?thesis by (simp add: move_helper_def split: prod.splits)
qed

section \<open>The count of empty cells, for every size\<close>



lemma line_cells_subset:
  assumes "length g = sz * sz" "i < sz"
  shows "set (line_cells sz d i g) \<subseteq> set g"
proof
  fix x assume "x \<in> set (line_cells sz d i g)"
  then obtain k where k: "k < sz"
    and x: "x = g ! nat (top_start_of sz d + int i * top_stride_of sz d + int k * it_stride_of sz d)"
    by (auto simp: line_cells_def line_at_def)
  have "nat (top_start_of sz d + int i * top_stride_of sz d + int k * it_stride_of sz d) < length g"
    using line_cells_in_range[OF assms(2) k, of d] assms(1) by (metis nat_less_iff)
  with x show "x \<in> set g" by simp
qed


text \<open>
  On the boards the engine reaches, an exponent is at most the number of cells plus one: 26
  for the program's size 5, which also keeps the shift \<^verbatim>\<open>1 << *top\<close> (defined for exponents
  below 32) inside its range.
\<close>

lemma exponent_bound:
  assumes "tiles_bounded g" "x \<in> set g"
  shows "unat x \<le> length g + 1"
proof -
  from assms(2) have "x \<in> set (filter (\<lambda>y. unat x \<le> unat y) g)" by simp
  then have "0 < count_ge g (unat x)" unfolding count_ge_def by (metis length_pos_if_in_set)
  moreover from assms(1) have "count_ge g (unat x) \<le> length g + 2 - unat x"
    by (simp add: tiles_bounded_def)
  ultimately show ?thesis by simp
qed

lemma reachable_exponent_bound:
  assumes "1 \<le> sz" "sz \<le> 15" "reachable sz s" "x \<in> set (grid s)"
  shows "unat x \<le> sz * sz + 1"
  using reachable_inv[OF assms(1-3)] exponent_bound[OF _ assms(4)] by (simp add: grid_inv_def)







section \<open>The score\<close>

text \<open>
  C1, as stated: each merge adds the value of the tile it forms, \<open>2\<close> to the power of the
  cursor cell's exponent after the increment. In the engine of size 2 built with the seed 1,
  the move down gives the board 0 0 / 1 1 with the score 0; the move left merges the two
  tiles of exponent 1 into one of exponent 2 (value 4), and the score is 2, not 4.
\<close>

theorem score_not_new_tile_value:
  "Grid_new 2 1 = Inr new_2_1 \<and> move 2 down new_2_1 = Inr down_2_1 \<and>
   move 2 left down_2_1 = Inr left_2_1 \<and>
   grid down_2_1 = [0, 0, 1, 1] \<and> grid left_2_1 = [0, 0, 2, 1] \<and>
   score left_2_1 = score down_2_1 + 2 \<and>
   score left_2_1 \<noteq> score down_2_1 + 2 ^ unat (grid left_2_1 ! 2)"
  using Grid_new_2_1 move_down_new_2_1 move_left_down_2_1
  by (simp add: down_2_1_def left_2_1_def)

lemma shift_gain_eq: "\<forall>x \<in> set xs. unat x < 32 \<Longrightarrow> shift_gain xs = merge_gain xs"
  by (induction xs rule: merge_gain.induct) simp_all

text \<open>
  On the boards the program reaches, every exponent is below 32: at most 26 on its board of
  side 5.
\<close>

lemma reachable_shift_defined:
  assumes "1 \<le> sz" "sz \<le> 5" "reachable sz s" "x \<in> set (grid s)"
  shows "unat x < 32"
proof -
  have "sz * sz \<le> 5 * 5" using assms(2) by (intro mult_le_mono)
  moreover have "sz \<le> 15" using assms(2) by simp
  ultimately show ?thesis using reachable_exponent_bound[OF assms(1) _ assms(3,4)] by simp
qed

text \<open>
  C1, amended: \<^verbatim>\<open>score_ += 1 << *top\<close> runs before \<^verbatim>\<open>(*top)++\<close>, so each merge adds \<open>2 ^ e\<close>
  for the exponent \<open>e\<close> of the two tiles merged, half the value of the tile formed. On a board
  whose exponents are below 32, where the shift of the source is defined, a \<^verbatim>\<open>move\<close> that
  returns changes the score by exactly the sum of these amounts over the merges of all lines
  (modulo \<open>2 ^ 32\<close>, the score being an \<^verbatim>\<open>unsigned int\<close>), and not at all when the board
  was full; the spawn adds nothing.
\<close>

theorem move_score:
  assumes "length (grid s) = sz * sz" and "\<forall>x \<in> set (grid s). unat x < 32"
    and "move sz d s = Inr s'"
  shows "score s' =
           (if empty_cells_count s = 0 then score s
            else score s + (\<Sum>i < sz. merge_gain (filter (\<lambda>x. x \<noteq> 0) (line_cells sz d i (grid s)))))"
proof (cases "empty_cells_count s = 0")
  case True
  with assms(3) show ?thesis by (auto simp: move_def)
next
  case False
  obtain m s1 where mh: "move_helper sz d s = (m, s1)" by (cases "move_helper sz d s")
  have "shift_gain (filter (\<lambda>x. x \<noteq> 0) (line_cells sz d i (grid s)))
      = merge_gain (filter (\<lambda>x. x \<noteq> 0) (line_cells sz d i (grid s)))" if "i < sz" for i
  proof (rule shift_gain_eq)
    show "\<forall>x \<in> set (filter (\<lambda>x. x \<noteq> 0) (line_cells sz d i (grid s))). unat x < 32"
      using line_cells_subset[OF assms(1) that, of d] assms(2) by auto
  qed
  then have "(\<Sum>i < sz. shift_gain (filter (\<lambda>x. x \<noteq> 0) (line_cells sz d i (grid s))))
      = (\<Sum>i < sz. merge_gain (filter (\<lambda>x. x \<noteq> 0) (line_cells sz d i (grid s))))"
    by (intro sum.cong) simp_all
  with mh move_helper_lines[OF assms(1), of d]
  have sc: "score s1 = score s + (\<Sum>i < sz. merge_gain (filter (\<lambda>x. x \<noteq> 0) (line_cells sz d i (grid s))))"
    by simp
  have "score s' = score s1"
  proof (cases m)
    case True
    with assms(3) False mh have "spawn_new_number s1 = Inr s'" by (simp add: move_def)
    from spawn_new_number_Inr[OF this] show ?thesis by auto
  next
    case False
    with assms(3) \<open>empty_cells_count s \<noteq> 0\<close> mh show ?thesis by (simp add: move_def)
  qed
  with sc False show ?thesis by simp
qed

lemma lines_down_2_1:
  "(\<Sum>i < 2. merge_gain (filter (\<lambda>x. x \<noteq> 0) (line_cells 2 left i (grid down_2_1)))) = 2"
  unfolding down_2_1_def by code_simp

theorem move_score_witness:
  "length (grid down_2_1) = 2 * 2 \<and> grid down_2_1 = [0, 0, 1, 1] \<and>
   move 2 left down_2_1 = Inr left_2_1 \<and> empty_cells_count down_2_1 \<noteq> 0 \<and>
   score left_2_1 = score down_2_1
      + (\<Sum>i < 2. merge_gain (filter (\<lambda>x. x \<noteq> 0) (line_cells 2 left i (grid down_2_1)))) \<and>
   (\<Sum>i < 2. merge_gain (filter (\<lambda>x. x \<noteq> 0) (line_cells 2 left i (grid down_2_1)))) = 2"
proof -
  have h1: "length (grid down_2_1) = 2 * 2" by (simp add: down_2_1_def)
  have h2: "empty_cells_count down_2_1 \<noteq> 0" by (simp add: down_2_1_def)
  have g: "grid down_2_1 = [0, 0, 1, 1]" by (simp add: down_2_1_def)
  then have h3: "\<forall>x \<in> set (grid down_2_1). unat x < 32" by simp
  from move_score[OF h1 h3 move_left_down_2_1] h1 h2 g move_left_down_2_1 lines_down_2_1
  show ?thesis by simp
qed

section \<open>One merge per tile\<close>

text \<open>
  C8, as stated, ends with: every board cell's exponent grows by at most one per move. In the
  engine of size 2 built with the seed 1, after the moves down and left the board is
  0 0 / 2 1; the move up slides the tile of exponent 2 into cell 0, whose exponent goes from
  0 to 2.
\<close>

theorem cell_grows_by_two:
  "Grid_new 2 1 = Inr new_2_1 \<and> moves 2 [down, left] new_2_1 = Inr left_2_1 \<and>
   move 2 up left_2_1 = Inr up_2_1 \<and> grid left_2_1 ! 0 = 0 \<and> grid up_2_1 ! 0 = 2 \<and>
   \<not> unat (grid up_2_1 ! 0) \<le> unat (grid left_2_1 ! 0) + 1"
  using Grid_new_2_1 move_down_new_2_1 move_left_down_2_1 move_up_left_2_1
  by (simp add: left_2_1_def up_2_1_def)

text \<open>
  C8, amended: after the pass, every line read from the leading edge is
  \<^const>\<open>slide_line\<close> of the line before the pass: its non-zero tiles in their order, equal
  neighbours merged once from the leading edge, a tile formed by a merge put out without
  being compared again (the cursor has moved past it), then zeros. So a tile's exponent grows
  by at most one in a move; a cell's exponent may grow by more when a tile slides into it.
  The line 1 1 2 becomes 2 2 0, not 3 0 0.
\<close>

theorem move_helper_single_merge:
  assumes "length (grid s) = sz * sz" and "i < sz"
  shows "line_cells sz d i (grid (snd (move_helper sz d s)))
           = slide_line (line_cells sz d i (grid s))"
  using move_helper_lines[OF assms(1), of d] assms(2) by simp

theorem move_helper_single_merge_witness:
  "length (grid merge_example) = 3 * 3 \<and> (0::nat) < 3 \<and>
   line_cells 3 left 0 (grid (snd (move_helper 3 left merge_example)))
     = slide_line (line_cells 3 left 0 (grid merge_example)) \<and>
   line_cells 3 left 0 (grid merge_example) = [1, 1, 2] \<and> slide_line [1, 1, 2] = [2, 2, 0]"
proof -
  have h1: "length (grid merge_example) = 3 * 3" by (simp add: merge_example_def)
  have h2: "(0::nat) < 3" by simp
  have l: "line_cells 3 left 0 (grid merge_example) = [1, 1, 2]"
    unfolding merge_example_def by code_simp
  have r: "slide_line [1, 1, 2] = [2, 2, 0]" by code_simp
  from move_helper_single_merge[OF h1 h2, of left] h1 h2 l r show ?thesis by simp
qed

section \<open>A full board\<close>

lemma move_full: "empty_cells_count s = 0 \<Longrightarrow> move sz d s = Inr (s\<lparr>state := ended\<rparr>)"
  by (simp add: move_def)

lemma moves_full:
  "empty_cells_count s = 0 \<Longrightarrow> ds \<noteq> [] \<Longrightarrow> moves sz ds s = Inr (s\<lparr>state := ended\<rparr>)"
proof (induction ds arbitrary: s)
  case Nil
  then show ?case by simp
next
  case (Cons d ds)
  show ?case
  proof (cases ds)
    case Nil
    then show ?thesis using Cons.prems by (simp add: move_full)
  next
    case (Cons d' ds')
    then have "moves sz ds (s\<lparr>state := ended\<rparr>) = Inr (s\<lparr>state := ended\<rparr>)"
      using Cons.IH[of "s\<lparr>state := ended\<rparr>"] Cons.prems by simp
    then show ?thesis using Cons.prems by (simp add: move_full)
  qed
qed

text \<open>
  C7: when \<^verbatim>\<open>empty_cells_count_\<close> is 0, a \<^verbatim>\<open>move\<close> in any direction returns the engine
  with the status \<^verbatim>\<open>ended\<close> and nothing else changed, and so does every non-empty sequence
  of further moves: board, score, count and generator state stay as they were.
\<close>

theorem move_full_ends:
  "empty_cells_count s = 0 \<Longrightarrow>
     move sz d s = Inr (s\<lparr>state := ended\<rparr>) \<and>
     moves sz (d # ds) s = Inr (s\<lparr>state := ended\<rparr>)"
  using moves_full[of s "d # ds" sz] by (simp add: move_full)

theorem move_full_ends_witness:
  "empty_cells_count full_2_1 = 0 \<and> move 2 down full_2_1 = Inr ended_2_1 \<and>
   moves 2 [down, left, up] full_2_1 = Inr ended_2_1"
proof -
  have h: "empty_cells_count full_2_1 = 0" by (simp add: full_2_1_def)
  have e: "full_2_1\<lparr>state := ended\<rparr> = ended_2_1" by (simp add: full_2_1_def ended_2_1_def)
  from move_full_ends[OF h, of 2 down "[left, up]"] h e show ?thesis by (simp del: moves.simps)
qed

end
